theory Spec2Isabelle
  imports Main "HOL-Library.Signed_Division"
begin

section \<open>The mark-compact collector of mark-compact.cc\<close>

text \<open>
  The embedding follows the release build of \<^verbatim>\<open>src/mark-compact.cc\<close>: \<^verbatim>\<open>ASSERT\<close> and the
  code under \<^verbatim>\<open>#ifdef DEBUG\<close> compile to nothing there. Code that the collector calls but
  that lives in other files (the spaces, the object layout, the roots) is a parameter of
  the model, collected in records of functions.
\<close>

subsection \<open>Machine integers\<close>

text \<open>
  A C++ \<^verbatim>\<open>int\<close> is a 32-bit two's complement integer on the targets of this collector.
  It is modelled as an \<^typ>\<open>int\<close> with the wrap-around written out: \<open>int32\<close> maps the
  mathematical result of an operation to the value the 32-bit register holds.
  The C++ division \<^verbatim>\<open>/\<close> truncates towards zero (\<open>sdiv\<close>); the division instruction
  traps on a zero divisor and on the one quotient that does not fit, \<^verbatim>\<open>INT_MIN / -1\<close>.
\<close>

definition int32 :: "int \<Rightarrow> int" where
  "int32 x = (x + 2147483648) mod 4294967296 - 2147483648"

definition INT_MAX :: int where
  "INT_MAX = 2147483647"

definition INT_MIN :: int where
  "INT_MIN = - 2147483648"

datatype error = DivisionByZero | DivisionOverflow | NullTracer

definition division_traps :: "int \<Rightarrow> int \<Rightarrow> error option" where
  "division_traps a b =
     (if b = 0 then Some DivisionByZero
      else if a = INT_MIN \<and> b = - 1 then Some DivisionOverflow
      else None)"

subsection \<open>Collector state\<close>

text \<open>
  \<^verbatim>\<open>GCTracer\<close> is declared in heap.h; the collector uses its marked-object counter and its
  \<^verbatim>\<open>set_is_compacting\<close>.
\<close>

record GCTracer =
  marked_count :: int
  is_compacting :: bool

definition increment_marked_count :: "GCTracer \<Rightarrow> GCTracer" where
  "increment_marked_count t = t\<lparr>marked_count := marked_count t + 1\<rparr>"

definition decrement_marked_count :: "GCTracer \<Rightarrow> GCTracer" where
  "decrement_marked_count t = t\<lparr>marked_count := marked_count t - 1\<rparr>"

definition set_is_compacting :: "GCTracer \<Rightarrow> GCTracer" where
  "set_is_compacting t = t\<lparr>is_compacting := True\<rparr>"

text \<open>
  The static members of \<^verbatim>\<open>MarkCompactCollector\<close> and the heap \<open>'h\<close> that the collector
  works on. The fields drop the trailing underscore of the C++ names
  (\<^verbatim>\<open>compacting_collection_\<close>, \<^verbatim>\<open>previous_marked_count_\<close>, \<^verbatim>\<open>tracer_\<close>); \<open>tracer\<close> is
  \<open>None\<close> for the C++ \<^verbatim>\<open>NULL\<close>.
\<close>

record 'h collector =
  compacting_collection :: bool
  previous_marked_count :: int
  tracer :: "GCTracer option"
  heap :: 'h

datatype AllocationSpace = NEW_SPACE | OLD_SPACE | CODE_SPACE | MAP_SPACE | LO_SPACE

text \<open>
  The runtime outside mark-compact.cc, as far as \<^verbatim>\<open>CollectGarbage\<close> and \<^verbatim>\<open>Prepare\<close> use it:
  the two flags, the accounting of the paged spaces (\<^verbatim>\<open>Waste()\<close>, \<^verbatim>\<open>AvailableFree()\<close>,
  \<^verbatim>\<open>Size()\<close>, each a C++ \<^verbatim>\<open>int\<close>), \<^verbatim>\<open>PrepareForMarkCompact\<close>, the counter and the stub cache,
  and the work that each phase does on the heap and on the tracer's counter. The phase
  work gets the compacting flag (\<^verbatim>\<open>IsCompacting()\<close>) but cannot write it: no code outside
  \<^verbatim>\<open>Prepare\<close> assigns \<^verbatim>\<open>compacting_collection_\<close>.
\<close>

record 'h runtime =
  FLAG_always_compact :: bool
  FLAG_never_compact :: bool
  Waste :: "AllocationSpace \<Rightarrow> 'h \<Rightarrow> int"
  AvailableFree :: "AllocationSpace \<Rightarrow> 'h \<Rightarrow> int"
  Size :: "AllocationSpace \<Rightarrow> 'h \<Rightarrow> int"
  PrepareForMarkCompact :: "AllocationSpace \<Rightarrow> bool \<Rightarrow> 'h \<Rightarrow> 'h"
  global_objects_Set :: "int \<Rightarrow> 'h \<Rightarrow> 'h"
  StubCache_Clear :: "'h \<Rightarrow> 'h"
  mark_live_objects :: "bool \<Rightarrow> GCTracer \<times> 'h \<Rightarrow> GCTracer \<times> 'h"
  FreeUnmarkedObjects :: "GCTracer \<times> 'h \<Rightarrow> GCTracer \<times> 'h"
  encode_forwarding_addresses :: "GCTracer \<times> 'h \<Rightarrow> GCTracer \<times> 'h"
  update_pointers :: "'h \<Rightarrow> 'h"
  relocate_objects :: "'h \<Rightarrow> 'h"
  Heap_RebuildRSets :: "'h \<Rightarrow> 'h"
  sweep_spaces :: "GCTracer \<times> 'h \<Rightarrow> GCTracer \<times> 'h"

definition on_heap :: "('h \<Rightarrow> 'h) \<Rightarrow> 'h collector \<Rightarrow> 'h collector" where
  "on_heap f c = c\<lparr>heap := f (heap c)\<rparr>"

text \<open>Work that also reaches the tracer through \<^verbatim>\<open>MarkCompactCollector::tracer()\<close>.\<close>

definition on_tracer_heap ::
  "(GCTracer \<times> 'h \<Rightarrow> GCTracer \<times> 'h) \<Rightarrow> 'h collector \<Rightarrow> 'h collector" where
  "on_tracer_heap f c =
     (case tracer c of
        None \<Rightarrow> c
      | Some t \<Rightarrow> (let (t', h') = f (t, heap c) in c\<lparr>tracer := Some t', heap := h'\<rparr>))"

definition IsCompacting :: "'h collector \<Rightarrow> bool" where
  "IsCompacting c = compacting_collection c"

subsection \<open>Prepare\<close>

definition kFragmentationLimit :: int where
  "kFragmentationLimit = 50"

text \<open>
  \<^verbatim>\<open>old_gen_recoverable\<close>, \<^verbatim>\<open>old_gen_used\<close> and \<^verbatim>\<open>old_gen_fragmentation\<close> are C++ \<^verbatim>\<open>int\<close>s; every
  sum and the product by 100 are taken in 32 bits.
\<close>

definition old_gen_recoverable :: "'h runtime \<Rightarrow> 'h \<Rightarrow> int" where
  "old_gen_recoverable R h =
     int32 (int32 (int32 (Waste R OLD_SPACE h + AvailableFree R OLD_SPACE h)
                   + Waste R CODE_SPACE h)
            + AvailableFree R CODE_SPACE h)"

definition old_gen_used :: "'h runtime \<Rightarrow> 'h \<Rightarrow> int" where
  "old_gen_used R h =
     int32 (int32 (old_gen_recoverable R h + Size R OLD_SPACE h) + Size R CODE_SPACE h)"

definition old_gen_fragmentation :: "'h runtime \<Rightarrow> 'h \<Rightarrow> int" where
  "old_gen_fragmentation R h =
     int32 (int32 (old_gen_recoverable R h * 100) sdiv old_gen_used R h)"

definition Prepare :: "'h runtime \<Rightarrow> 'h collector \<Rightarrow> error + 'h collector" where
  "Prepare R c0 =
     (let c2 = c0\<lparr>compacting_collection := FLAG_always_compact R\<rparr>
      in case (if \<not> compacting_collection c2 then
                 (case division_traps (int32 (old_gen_recoverable R (heap c2) * 100))
                         (old_gen_used R (heap c2)) of
                    Some e \<Rightarrow> Inl e
                  | None \<Rightarrow>
                      if kFragmentationLimit < old_gen_fragmentation R (heap c2)
                      then Inr (c2\<lparr>compacting_collection := True\<rparr>)
                      else Inr c2)
               else Inr c2) of
           Inl e \<Rightarrow> Inl e
         | Inr c3 \<Rightarrow>
            (let c4 = (if FLAG_never_compact R then c3\<lparr>compacting_collection := False\<rparr>
                       else c3);
                 c5 = on_heap (PrepareForMarkCompact R MAP_SPACE (compacting_collection c4)) c4;
                 c6 = on_heap (PrepareForMarkCompact R OLD_SPACE (compacting_collection c5)) c5;
                 c7 = on_heap (PrepareForMarkCompact R CODE_SPACE (compacting_collection c6)) c6
             in Inr (on_heap (global_objects_Set R 0) c7)))"

subsection \<open>The phases as CollectGarbage calls them\<close>

definition MarkLiveObjects :: "'h runtime \<Rightarrow> 'h collector \<Rightarrow> 'h collector" where
  "MarkLiveObjects R c = on_tracer_heap (mark_live_objects R (IsCompacting c)) c"

definition SweepLargeObjectSpace :: "'h runtime \<Rightarrow> 'h collector \<Rightarrow> 'h collector" where
  "SweepLargeObjectSpace R c =
     on_tracer_heap (FreeUnmarkedObjects R) c"

definition EncodeForwardingAddresses :: "'h runtime \<Rightarrow> 'h collector \<Rightarrow> 'h collector" where
  "EncodeForwardingAddresses R c =
     on_tracer_heap (encode_forwarding_addresses R) c"

definition UpdatePointers :: "'h runtime \<Rightarrow> 'h collector \<Rightarrow> 'h collector" where
  "UpdatePointers R c = on_heap (update_pointers R) c"

definition RelocateObjects :: "'h runtime \<Rightarrow> 'h collector \<Rightarrow> 'h collector" where
  "RelocateObjects R c = on_heap (relocate_objects R) c"

definition RebuildRSets :: "'h runtime \<Rightarrow> 'h collector \<Rightarrow> 'h collector" where
  "RebuildRSets R c = on_heap (Heap_RebuildRSets R) c"

definition SweepSpaces :: "'h runtime \<Rightarrow> 'h collector \<Rightarrow> 'h collector" where
  "SweepSpaces R c = on_tracer_heap (sweep_spaces R) c"

definition Finish :: "'h runtime \<Rightarrow> 'h collector \<Rightarrow> 'h collector" where
  "Finish R c = on_heap (StubCache_Clear R) c"

subsection \<open>CollectGarbage\<close>

text \<open>
  The result is the collector after the collection (its \<open>tracer\<close> is \<^verbatim>\<open>NULL\<close> again)
  together with the caller's tracer object as the collection left it.
\<close>

definition CollectGarbage ::
  "'h runtime \<Rightarrow> GCTracer \<Rightarrow> 'h collector \<Rightarrow> error + (GCTracer \<times> 'h collector)" where
  "CollectGarbage R gc_tracer c0 =
     (case Prepare R (c0\<lparr>tracer := Some gc_tracer\<rparr>) of
        Inl e \<Rightarrow> Inl e
      | Inr c1 \<Rightarrow>
         (let c2 = (if IsCompacting c1
                    then c1\<lparr>tracer := map_option set_is_compacting (tracer c1)\<rparr>
                    else c1);
              c3 = MarkLiveObjects R c2;
              c4 = SweepLargeObjectSpace R c3;
              c5 = (if compacting_collection c4
                    then RebuildRSets R (RelocateObjects R (UpdatePointers R
                           (EncodeForwardingAddresses R c4)))
                    else SweepSpaces R c4);
              c6 = Finish R c5
          in case tracer c6 of
               None \<Rightarrow> Inl NullTracer
             | Some t \<Rightarrow>
                 Inr (t, c6\<lparr>previous_marked_count := marked_count t, tracer := None\<rparr>)))"

subsection \<open>The compaction policy in the words of the specification\<close>

text \<open>
  The fragmentation of the old generation as a percentage, over the integers: waste and
  free-list bytes of the old and the code space, over that quantity plus the sizes of both
  spaces.
\<close>

definition fragmentation_percent :: "'h runtime \<Rightarrow> 'h \<Rightarrow> int" where
  "fragmentation_percent R h =
     (let recoverable = Waste R OLD_SPACE h + AvailableFree R OLD_SPACE h
                      + Waste R CODE_SPACE h + AvailableFree R CODE_SPACE h
      in (recoverable * 100) div (recoverable + Size R OLD_SPACE h + Size R CODE_SPACE h))"

definition spec_compacting :: "'h runtime \<Rightarrow> 'h \<Rightarrow> bool" where
  "spec_compacting R h =
     (\<not> FLAG_never_compact R \<and> (FLAG_always_compact R \<or> 50 < fragmentation_percent R h))"

subsection \<open>Sample runtimes\<close>

text \<open>
  A runtime over a heap without content, given by the two flags and the accounting of
  the spaces; the work of the phases is left out.
\<close>

definition accounting_runtime ::
  "bool \<Rightarrow> bool \<Rightarrow> (AllocationSpace \<Rightarrow> int) \<Rightarrow> (AllocationSpace \<Rightarrow> int) \<Rightarrow>
   (AllocationSpace \<Rightarrow> int) \<Rightarrow> unit runtime" where
  "accounting_runtime always never waste free sz =
     \<lparr>FLAG_always_compact = always, FLAG_never_compact = never,
      Waste = (\<lambda>s h. waste s), AvailableFree = (\<lambda>s h. free s), Size = (\<lambda>s h. sz s),
      PrepareForMarkCompact = (\<lambda>s b h. h), global_objects_Set = (\<lambda>n h. h),
      StubCache_Clear = (\<lambda>h. h), mark_live_objects = (\<lambda>b th. th),
      FreeUnmarkedObjects = (\<lambda>th. th), encode_forwarding_addresses = (\<lambda>th. th),
      update_pointers = (\<lambda>h. h), relocate_objects = (\<lambda>h. h),
      Heap_RebuildRSets = (\<lambda>h. h), sweep_spaces = (\<lambda>th. th)\<rparr>"

definition idle_collector :: "unit collector" where
  "idle_collector = \<lparr>compacting_collection = False, previous_marked_count = 0,
                     tracer = None, heap = ()\<rparr>"

definition fresh_tracer :: GCTracer where
  "fresh_tracer = \<lparr>marked_count = 0, is_compacting = False\<rparr>"

text \<open>
  An old space with 30,000,000 bytes on its free list and 10,000,000 bytes in use, a code
  space with 2,000,000 bytes in use, and both flags off.
\<close>

definition fragmented_heap :: "unit runtime" where
  "fragmented_heap = accounting_runtime False False (\<lambda>s. 0)
           (\<lambda>s. if s = OLD_SPACE then 30000000 else 0)
           (\<lambda>s. if s = OLD_SPACE then 10000000 else 2000000)"

text \<open>The same spaces at a tenth of the size.\<close>

definition small_fragmented_heap :: "unit runtime" where
  "small_fragmented_heap = accounting_runtime False False (\<lambda>s. 0)
           (\<lambda>s. if s = OLD_SPACE then 3000000 else 0)
           (\<lambda>s. if s = OLD_SPACE then 1000000 else 200000)"

text \<open>
  A runtime whose heap is the list of the calls made on it, in the order in which they
  were made. Marking counts one object; the encoding, and in a sweeping collection the
  sweep of the spaces, takes it from the counter again. The old generation is not
  fragmented.
\<close>

datatype runtime_call =
    Called_PrepareForMarkCompact AllocationSpace bool
  | Called_global_objects_Set int
  | Called_mark_live_objects bool
  | Called_FreeUnmarkedObjects
  | Called_encode_forwarding_addresses
  | Called_update_pointers
  | Called_relocate_objects
  | Called_RebuildRSets
  | Called_sweep_spaces
  | Called_StubCache_Clear

definition recording_runtime :: "bool \<Rightarrow> runtime_call list runtime" where
  "recording_runtime always =
     \<lparr>FLAG_always_compact = always, FLAG_never_compact = False,
      Waste = (\<lambda>s h. 0), AvailableFree = (\<lambda>s h. 0), Size = (\<lambda>s h. 4096),
      PrepareForMarkCompact = (\<lambda>s b h. h @ [Called_PrepareForMarkCompact s b]),
      global_objects_Set = (\<lambda>n h. h @ [Called_global_objects_Set n]),
      StubCache_Clear = (\<lambda>h. h @ [Called_StubCache_Clear]),
      mark_live_objects =
        (\<lambda>b (t, h). (increment_marked_count t, h @ [Called_mark_live_objects b])),
      FreeUnmarkedObjects =
        (\<lambda>(t, h). (t, h @ [Called_FreeUnmarkedObjects])),
      encode_forwarding_addresses =
        (\<lambda>(t, h). (decrement_marked_count t, h @ [Called_encode_forwarding_addresses])),
      update_pointers = (\<lambda>h. h @ [Called_update_pointers]),
      relocate_objects = (\<lambda>h. h @ [Called_relocate_objects]),
      Heap_RebuildRSets = (\<lambda>h. h @ [Called_RebuildRSets]),
      sweep_spaces = (\<lambda>(t, h). (decrement_marked_count t, h @ [Called_sweep_spaces]))\<rparr>"

definition recording_collector :: "runtime_call list collector" where
  "recording_collector = \<lparr>compacting_collection = False, previous_marked_count = 7,
                          tracer = None, heap = []\<rparr>"
section \<open>The heap as the collector sees it\<close>

subsection \<open>Tagged values and map words\<close>

type_synonym address = int

text \<open>
  An \<^verbatim>\<open>Object*\<close> is a tagged word: a small integer, a pointer to a heap object, or a
  failure. objects.h is not among the sources, so the tag tests \<^verbatim>\<open>IsHeapObject()\<close> and
  \<^verbatim>\<open>IsFailure()\<close> are the tests for the constructor, \<^verbatim>\<open>HeapObject::FromAddress\<close> is the
  constructor and \<^verbatim>\<open>address()\<close> its argument.
\<close>

datatype Object =
    IsSmi: Smi int
  | IsHeapObject: HeapObject (address: address)
  | IsFailure: Failure

text \<open>
  Modelled from the spec: \<^verbatim>\<open>MapWord\<close> (objects.h), the first word of every heap object. It
  is a map pointer with a mark bit and an overflow bit, or, between the encoding of the
  forwarding addresses and the relocation, the encoding of the address of the map and of
  the forwarding offset (\<^verbatim>\<open>EncodeAddress\<close>, with \<^verbatim>\<open>DecodeMapAddress\<close> and \<^verbatim>\<open>DecodeOffset\<close>
  giving back what was encoded), or a word that is neither and that the collector has
  written there as a number (\<open>FreeRegionWord\<close>): the two encodings of a free region, 0
  and 1, are no valid map pointers and no valid forwarding encodings.
\<close>

datatype MapWord =
    is_map_pointer: MapPointer (map_address: address) (IsMarked: bool) (IsOverflowed: bool)
  | EncodeAddress (DecodeMapAddress: address) (DecodeOffset: int)
  | FreeRegionWord int

text \<open>
  The two bits are the two low bits of the word, where a pointer has its tag \<^verbatim>\<open>01\<close>: the
  comment on phase 1 says that the map pointer of a live object is marked as \<^verbatim>\<open>00\<close>, so
  a marked word is the pointer without its tag bit, and an overflowed word has the bit
  above it set. \<^verbatim>\<open>ToMap()\<close> hands the word out as a pointer, with the bits that it has: it is
  the address of the map only when neither bit marks the word, which is why the collector
  clears the mark before it calls \<^verbatim>\<open>ToMap()\<close> on the word of a marked object, and both
  bits in \<^verbatim>\<open>OverflowObjectSize\<close>.
\<close>

definition kMarkingMask :: int where
  "kMarkingMask = 1"

definition kOverflowMask :: int where
  "kOverflowMask = 2"

definition ToMap :: "MapWord \<Rightarrow> address" where
  "ToMap w =
     map_address w - (if IsMarked w then kMarkingMask else 0)
                   + (if IsOverflowed w then kOverflowMask else 0)"

fun SetMark :: "MapWord \<Rightarrow> MapWord" where
  "SetMark (MapPointer m b v) = MapPointer m True v"
| "SetMark w = w"

fun ClearMark :: "MapWord \<Rightarrow> MapWord" where
  "ClearMark (MapPointer m b v) = MapPointer m False v"
| "ClearMark w = w"

fun SetOverflow :: "MapWord \<Rightarrow> MapWord" where
  "SetOverflow (MapPointer m b v) = MapPointer m b True"
| "SetOverflow w = w"

fun ClearOverflow :: "MapWord \<Rightarrow> MapWord" where
  "ClearOverflow (MapPointer m b v) = MapPointer m b False"
| "ClearOverflow w = w"

subsection \<open>Pages and semispaces\<close>

text \<open>
  The fields of a page header (spaces.h) that the collector reads and writes;
  \<open>next_page\<close> is the address of the next page of the space.
\<close>

record Page =
  mc_first_forwarded :: address
  mc_relocation_top :: address
  next_page :: address

text \<open>
  The geometry of the spaces: constants and bounds of spaces.h that do not change during a
  collection phase. A page is an aligned block of \<open>kPageSize\<close> bytes whose object area
  starts \<open>kObjectStartOffset\<close> bytes after the page header's address.
\<close>

record geometry =
  kPageSize :: int
  kObjectStartOffset :: int
  FromSpaceLow :: address
  ToSpaceLow :: address
  new_space_Contains :: "address \<Rightarrow> bool"
  lo_space_Contains :: "address \<Rightarrow> bool"

definition Page_FromAddress :: "geometry \<Rightarrow> address \<Rightarrow> address" where
  "Page_FromAddress G a = a - a mod kPageSize G"

definition Page_Offset :: "address \<Rightarrow> address \<Rightarrow> int" where
  "Page_Offset pg a = a - pg"

definition Page_OffsetToAddress :: "address \<Rightarrow> int \<Rightarrow> address" where
  "Page_OffsetToAddress pg offset = pg + offset"

definition ObjectAreaStart :: "geometry \<Rightarrow> address \<Rightarrow> address" where
  "ObjectAreaStart G pg = Page_OffsetToAddress pg (kObjectStartOffset G)"

text \<open>
  Modelled from the spec: \<^verbatim>\<open>ToSpaceOffsetForAddress\<close> (spaces.h), the offset of an address
  in the active semispace; the forwarding address of the object at offset \<open>k\<close> in
  \<^verbatim>\<open>to\<close> is kept at offset \<open>k\<close> in \<^verbatim>\<open>from\<close>.
\<close>

definition ToSpaceOffsetForAddress :: "geometry \<Rightarrow> address \<Rightarrow> int" where
  "ToSpaceOffsetForAddress G a = a - ToSpaceLow G"

subsection \<open>Memory\<close>

text \<open>
  \<^verbatim>\<open>kIntSize\<close> is \<^verbatim>\<open>sizeof(int)\<close> and \<^verbatim>\<open>kPointerSize\<close> is \<^verbatim>\<open>sizeof(void*)\<close> (globals.h): four
  bytes each on the 32-bit targets of this collector, whose map word has 32 bits.
\<close>

definition kIntSize :: int where
  "kIntSize = 4"

definition kPointerSize :: int where
  "kPointerSize = 4"

text \<open>
  Memory is read and written in aligned words, and the model has three stores for them:
  the first words of the objects, which hold map words (\<open>map_word\<close>); the pointer fields
  and roots that the collector reaches through an \<^verbatim>\<open>Object**\<close> (\<open>slot\<close>); and the words
  that hold a number or an address and that the collector reaches through
  \<^verbatim>\<open>Memory::int_at\<close> and \<^verbatim>\<open>Memory::Address_at\<close> (\<open>Memory\<close>): the size of a free region in its
  second word, and the forwarding addresses of new-space objects in the inactive
  semispace. The headers of the pages are in \<open>page\<close>, by page address.
\<close>

record heap =
  slot :: "address \<Rightarrow> Object"
  map_word :: "address \<Rightarrow> MapWord"
  Memory :: "address \<Rightarrow> int"
  page :: "address \<Rightarrow> Page"

text \<open>Reading a cell as \<^verbatim>\<open>int\<close> gives the value of its 32 bits.\<close>

definition int_at :: "'a heap_scheme \<Rightarrow> address \<Rightarrow> int" where
  "int_at h a = int32 (Memory h a)"

definition Address_at :: "'a heap_scheme \<Rightarrow> address \<Rightarrow> address" where
  "Address_at h a = Memory h a"

definition Memory_store :: "address \<Rightarrow> int \<Rightarrow> 'a heap_scheme \<Rightarrow> 'a heap_scheme" where
  "Memory_store a v h = h\<lparr>Memory := (Memory h)(a := v)\<rparr>"

subsection \<open>Free regions\<close>

definition kSingleFreeEncoding :: int where
  "kSingleFreeEncoding = 0"

definition kMultiFreeEncoding :: int where
  "kMultiFreeEncoding = 1"

text \<open>
  \<^verbatim>\<open>Memory::uint32_at(a)\<close> is used on the first word of a region only: the store writes
  the number as the map word there, and the test \<^verbatim>\<open>encoded_map == k\<close> of
  \<open>IterateLiveObjectsInRange\<close> for an encoding \<open>k\<close> is the test whether the map word
  is that number.
\<close>

definition uint32_store :: "address \<Rightarrow> int \<Rightarrow> 'a heap_scheme \<Rightarrow> 'a heap_scheme" where
  "uint32_store a v h = h\<lparr>map_word := (map_word h)(a := FreeRegionWord v)\<rparr>"

definition uint32_at_is :: "'a heap_scheme \<Rightarrow> address \<Rightarrow> int \<Rightarrow> bool" where
  "uint32_at_is h a k = (map_word h a = FreeRegionWord k)"

definition EncodeFreeRegion :: "address \<Rightarrow> int \<Rightarrow> 'a heap_scheme \<Rightarrow> 'a heap_scheme" where
  "EncodeFreeRegion free_start free_size h =
     (if free_size = kIntSize then uint32_store free_start kSingleFreeEncoding h
      else Memory_store (free_start + kIntSize) free_size
             (uint32_store free_start kMultiFreeEncoding h))"

text \<open>
  The loop of \<^verbatim>\<open>IterateLiveObjectsInRange\<close>. The callback \<open>size_func\<close> works on the heap and
  returns the size of the object; nothing bounds that size from below, so the loop need
  not end, and \<open>None\<close> is the run that does not return.
\<close>

partial_function (option) live_objects_loop ::
  "(address \<Rightarrow> 'a heap_scheme \<Rightarrow> int \<times> 'a heap_scheme) \<Rightarrow> address \<Rightarrow> address \<Rightarrow> int \<Rightarrow>
   'a heap_scheme \<Rightarrow> (int \<times> 'a heap_scheme) option" where
  "live_objects_loop size_func end' current live_objects h =
     (if current < end' then
        (if uint32_at_is h current kSingleFreeEncoding then
           live_objects_loop size_func end' (current + kPointerSize) live_objects h
         else if uint32_at_is h current kMultiFreeEncoding then
           live_objects_loop size_func end' (current + int_at h (current + kIntSize))
             live_objects h
         else
           live_objects_loop size_func end' (current + fst (size_func current h))
             (live_objects + 1) (snd (size_func current h)))
      else Some (live_objects, h))"

definition IterateLiveObjectsInRange ::
  "address \<Rightarrow> address \<Rightarrow> (address \<Rightarrow> 'a heap_scheme \<Rightarrow> int \<times> 'a heap_scheme) \<Rightarrow>
   'a heap_scheme \<Rightarrow> (int \<times> 'a heap_scheme) option" where
  "IterateLiveObjectsInRange start end' size_func h = live_objects_loop size_func end' start 0 h"

subsection \<open>Forwarding addresses in the paged spaces\<close>

definition GetForwardingAddressInOldSpace :: "geometry \<Rightarrow> 'a heap_scheme \<Rightarrow> address \<Rightarrow> address" where
  "GetForwardingAddressInOldSpace G h obj =
     (let encoding = map_word h obj;
          offset = DecodeOffset encoding;
          obj_addr = obj;
          p = Page_FromAddress G obj_addr;
          first_forwarded = mc_first_forwarded (page h p);
          forwarded_page = Page_FromAddress G first_forwarded;
          forwarded_offset = Page_Offset forwarded_page first_forwarded;
          mc_top = mc_relocation_top (page h forwarded_page);
          mc_top_offset = Page_Offset forwarded_page mc_top
      in if forwarded_offset + offset < mc_top_offset then first_forwarded + offset
         else (let next = next_page (page h forwarded_page);
                   offset1 = offset - (mc_top_offset - forwarded_offset);
                   offset2 = offset1 + kObjectStartOffset G
               in Page_OffsetToAddress next offset2))"

subsection \<open>UpdatePointer\<close>

definition UpdatePointer :: "geometry \<Rightarrow> address \<Rightarrow> 'a heap_scheme \<Rightarrow> 'a heap_scheme" where
  "UpdatePointer G p h =
     (if \<not> IsHeapObject (slot h p) then h
      else (let obj = slot h p;
                old_addr = address obj;
                new_addr =
                  (if new_space_Contains G old_addr then
                     Address_at h (FromSpaceLow G + ToSpaceOffsetForAddress G old_addr)
                   else if lo_space_Contains G old_addr then address obj
                   else GetForwardingAddressInOldSpace G h old_addr)
            in h\<lparr>slot := (slot h)(p := HeapObject new_addr)\<rparr>))"

subsection \<open>Allocation of forwarding addresses for new-space objects\<close>

text \<open>
  The allocators of the spaces (\<^verbatim>\<open>MCAllocateRaw\<close>, spaces.cc) are parameters: a request for
  \<open>size\<close> bytes in a space changes the state \<open>'s\<close> of the spaces and returns the new
  object or a failure. \<open>requests\<close> is a ghost log of the requests made.
\<close>

record 's allocation =
  spaces :: 's
  requests :: "(AllocationSpace \<times> int) list"

definition MCAllocateRaw ::
  "(AllocationSpace \<Rightarrow> int \<Rightarrow> 's \<Rightarrow> Object \<times> 's) \<Rightarrow> AllocationSpace \<Rightarrow> int \<Rightarrow>
   's allocation \<Rightarrow> Object \<times> 's allocation" where
  "MCAllocateRaw raw space size_in_bytes a =
     (let (result, s') = raw space size_in_bytes (spaces a)
      in (result, \<lparr>spaces = s', requests = requests a @ [(space, size_in_bytes)]\<rparr>))"

text \<open>
  Modelled from the spec: \<^verbatim>\<open>Heap::TargetSpace\<close> (heap-inl.h), the promotion policy. Heap
  numbers and sequential strings go to the code space, all other objects to the old
  space.
\<close>

datatype object_kind = HeapNumber | SeqString | OtherObject

definition TargetSpace :: "object_kind \<Rightarrow> AllocationSpace" where
  "TargetSpace k = (if k = HeapNumber \<or> k = SeqString then CODE_SPACE else OLD_SPACE)"

definition MCAllocateFromNewSpace ::
  "(AllocationSpace \<Rightarrow> int \<Rightarrow> 's \<Rightarrow> Object \<times> 's) \<Rightarrow> (address \<Rightarrow> object_kind) \<Rightarrow>
   address \<Rightarrow> int \<Rightarrow> 's allocation \<Rightarrow> Object \<times> 's allocation" where
  "MCAllocateFromNewSpace raw kind object object_size a =
     (let target_space = TargetSpace (kind object);
          (forwarded, a1) =
            (if target_space = OLD_SPACE then MCAllocateRaw raw OLD_SPACE object_size a
             else MCAllocateRaw raw CODE_SPACE object_size a)
      in if IsFailure forwarded then MCAllocateRaw raw NEW_SPACE object_size a1
         else (forwarded, a1))"

section \<open>Phase 1: marking\<close>

subsection \<open>The state of the collector during a collection\<close>

text \<open>
  An \<^verbatim>\<open>Object**\<close> is the number of a slot: \<open>p + 1\<close> is the slot after \<open>p\<close>, and
  \<open>end' - start\<close> is the number of slots of a range, as in the pointer arithmetic of the
  source. A \<^verbatim>\<open>RelocInfo*\<close> is the number of a relocation entry.
\<close>

type_synonym slot_ptr = int
type_synonym rinfo = int

text \<open>
  The heap together with what the collector keeps during a collection: the tracer
  (\<^verbatim>\<open>MarkCompactCollector::tracer()\<close>), the marking stack with its overflow flag, the counter \<^verbatim>\<open>global_objects\<close>, the
  targets of the relocation entries of code objects and the \<^verbatim>\<open>ic_flag\<close> of code objects
  (\<open>True\<close> for \<^verbatim>\<open>IC_TARGET_IS_OBJECT\<close>).
\<close>

record gc_heap = heap +
  gc_tracer :: GCTracer
  marking_stack :: "address list"
  overflowed :: bool
  global_objects :: int
  target_address :: "rinfo \<Rightarrow> address"
  ic_flag :: "address \<Rightarrow> bool"

text \<open>
  The calls that \<^verbatim>\<open>HeapObject::IterateBody\<close> (objects.cc) makes on a visitor for one
  object.
\<close>

datatype body_item =
    Pointer slot_ptr
  | Pointers slot_ptr slot_ptr
  | CodeTarget rinfo
  | DebugTarget rinfo
  | BeginCode address
  | EndCode address

text \<open>
  What marking reads but does not change: the flags, the decision of \<open>Prepare\<close>, the
  instance types of the maps and the constants of objects.h that classify them, the places
  of the fields of a cons string and of the code cache of a map, two roots, the test
  \<^verbatim>\<open>Heap::InNewSpace\<close>, the visitor calls of \<^verbatim>\<open>IterateBody\<close>, the header size of a code
  object and the test for inline-cache stubs, \<^verbatim>\<open>IC::Clear\<close> (which retargets a call site),
  the number of entries that fit the marking stack, the stack-limit check as a function
  of the depth of the recursion of the visitor, and the objects of each space in the order
  in which the iterators of the space yield them.
\<close>

record object_model =
  compacting :: bool
  FLAG_cleanup_ics_at_gc :: bool
  FLAG_cleanup_caches_in_maps_at_gc :: bool
  instance_type :: "address \<Rightarrow> int"
  FIRST_NONSTRING_TYPE :: int
  kStringRepresentationMask :: int
  kConsStringTag :: int
  MAP_TYPE :: int
  JS_GLOBAL_OBJECT_TYPE :: int
  first_slot :: "address \<Rightarrow> slot_ptr"
  second_slot :: "address \<Rightarrow> slot_ptr"
  code_cache_slot :: "address \<Rightarrow> slot_ptr"
  empty_string :: Object
  empty_fixed_array :: Object
  InNewSpace :: "Object \<Rightarrow> bool"
  body :: "address \<Rightarrow> body_item list"
  Code_kHeaderSize :: int
  is_inline_cache_stub :: "address \<Rightarrow> bool"
  IC_Clear :: "rinfo \<Rightarrow> (rinfo \<Rightarrow> address) \<Rightarrow> (rinfo \<Rightarrow> address)"
  stack_capacity :: nat
  HasOverflowed :: "nat \<Rightarrow> bool"
  objects_in :: "AllocationSpace \<Rightarrow> address list"

subsection \<open>Map words of objects\<close>

definition set_map_word :: "address \<Rightarrow> MapWord \<Rightarrow> 'a heap_scheme \<Rightarrow> 'a heap_scheme" where
  "set_map_word obj w h = h\<lparr>map_word := (map_word h)(obj := w)\<rparr>"

definition obj_IsMarked :: "'a heap_scheme \<Rightarrow> address \<Rightarrow> bool" where
  "obj_IsMarked h obj = IsMarked (map_word h obj)"

definition obj_IsOverflowed :: "'a heap_scheme \<Rightarrow> address \<Rightarrow> bool" where
  "obj_IsOverflowed h obj = IsOverflowed (map_word h obj)"

definition obj_SetMark :: "address \<Rightarrow> 'a heap_scheme \<Rightarrow> 'a heap_scheme" where
  "obj_SetMark obj h = set_map_word obj (SetMark (map_word h obj)) h"

definition obj_ClearMark :: "address \<Rightarrow> 'a heap_scheme \<Rightarrow> 'a heap_scheme" where
  "obj_ClearMark obj h = set_map_word obj (ClearMark (map_word h obj)) h"

definition obj_SetOverflow :: "address \<Rightarrow> 'a heap_scheme \<Rightarrow> 'a heap_scheme" where
  "obj_SetOverflow obj h = set_map_word obj (SetOverflow (map_word h obj)) h"

definition obj_ClearOverflow :: "address \<Rightarrow> 'a heap_scheme \<Rightarrow> 'a heap_scheme" where
  "obj_ClearOverflow obj h = set_map_word obj (ClearOverflow (map_word h obj)) h"

text \<open>
  \<^verbatim>\<open>obj->map()\<close>, which is \<^verbatim>\<open>map_word().ToMap()\<close>, and the type tests of objects-inl.h on
  the instance type of the map.
\<close>

definition obj_map :: "'a heap_scheme \<Rightarrow> address \<Rightarrow> address" where
  "obj_map h obj = ToMap (map_word h obj)"

definition IsMap :: "object_model \<Rightarrow> 'a heap_scheme \<Rightarrow> address \<Rightarrow> bool" where
  "IsMap M h obj = (instance_type M (obj_map h obj) = MAP_TYPE M)"

definition IsJSGlobalObject :: "object_model \<Rightarrow> 'a heap_scheme \<Rightarrow> address \<Rightarrow> bool" where
  "IsJSGlobalObject M h obj = (instance_type M (obj_map h obj) = JS_GLOBAL_OBJECT_TYPE M)"

text \<open>
  Modelled from the spec: \<^verbatim>\<open>Map::ClearCodeCache\<close> (objects-inl.h), the flush of the code
  cache of a map under \<^verbatim>\<open>cleanup_caches_in_maps_at_gc\<close>; the field gets the empty array.
\<close>

definition ClearCodeCache :: "object_model \<Rightarrow> address \<Rightarrow> 'a heap_scheme \<Rightarrow> 'a heap_scheme" where
  "ClearCodeCache M obj h = h\<lparr>slot := (slot h)(code_cache_slot M obj := empty_fixed_array M)\<rparr>"

subsection \<open>The marking stack\<close>

text \<open>
  Modelled from the spec: \<^verbatim>\<open>MarkingStack\<close> (heap.h), a bounded stack of gray objects over
  the inactive semispace. A push onto a full stack latches the overflow flag, and the
  object it was given, which is reached and not on the stack, is in the state marked and
  overflowed of the data model. Filling the stack to its capacity does not set the flag.
\<close>

definition is_full :: "object_model \<Rightarrow> gc_heap \<Rightarrow> bool" where
  "is_full M h = (stack_capacity M \<le> length (marking_stack h))"

definition is_empty :: "gc_heap \<Rightarrow> bool" where
  "is_empty h = (marking_stack h = [])"

definition clear_overflowed :: "gc_heap \<Rightarrow> gc_heap" where
  "clear_overflowed h = h\<lparr>overflowed := False\<rparr>"

definition Push :: "object_model \<Rightarrow> address \<Rightarrow> gc_heap \<Rightarrow> gc_heap" where
  "Push M obj h =
     (if is_full M h then (obj_SetOverflow obj h)\<lparr>overflowed := True\<rparr>
      else h\<lparr>marking_stack := obj # marking_stack h\<rparr>)"

subsection \<open>Marking an object\<close>

definition MarkUnmarkedObject :: "object_model \<Rightarrow> address \<Rightarrow> gc_heap \<Rightarrow> gc_heap" where
  "MarkUnmarkedObject M obj h =
     (let h1 = (if IsJSGlobalObject M h obj then h\<lparr>global_objects := global_objects h + 1\<rparr>
                else h);
          h2 = (if FLAG_cleanup_caches_in_maps_at_gc M \<and> IsMap M h1 obj
                then ClearCodeCache M obj h1 else h1);
          h3 = obj_SetMark obj h2;
          h4 = h3\<lparr>gc_tracer := increment_marked_count (gc_tracer h3)\<rparr>
      in if \<not> overflowed h4 then Push M obj h4
         else obj_SetOverflow obj h4)"

text \<open>
  Modelled from the spec: \<^verbatim>\<open>MarkCompactCollector::MarkObject\<close> (mark-compact.h), which
  marks an object unless it is marked already.
\<close>

definition MarkObject :: "object_model \<Rightarrow> address \<Rightarrow> gc_heap \<Rightarrow> gc_heap" where
  "MarkObject M obj h = (if \<not> obj_IsMarked h obj then MarkUnmarkedObject M obj h else h)"

subsection \<open>The marking visitor\<close>

text \<open>
  The test of \<open>MarkObjectByPointer\<close> for a cons string whose second part is the empty
  string. It reads the instance type through the map word with the mark cleared, and
  with the overflow bit as it is.
\<close>

definition is_flat_cons_string :: "object_model \<Rightarrow> gc_heap \<Rightarrow> address \<Rightarrow> bool" where
  "is_flat_cons_string M h obj =
     (let w = ClearMark (map_word h obj);
          type = instance_type M (ToMap w)
      in type < FIRST_NONSTRING_TYPE M \<and>
         and type (kStringRepresentationMask M) = kConsStringTag M \<and>
         slot h (second_slot M obj) = empty_string M)"

definition MarkObjectByPointer :: "object_model \<Rightarrow> slot_ptr \<Rightarrow> gc_heap \<Rightarrow> gc_heap" where
  "MarkObjectByPointer M p h =
     (let obj = slot h p
      in if \<not> IsHeapObject obj then h
         else if is_flat_cons_string M h (address obj) then
           (let first = slot h (first_slot M (address obj))
            in if InNewSpace M obj \<or> \<not> InNewSpace M first
               then MarkObject M (address first) (h\<lparr>slot := (slot h)(p := first)\<rparr>)
               else MarkObject M (address obj) h)
         else MarkObject M (address obj) h)"

definition CodeFromDerivedPointer :: "object_model \<Rightarrow> address \<Rightarrow> address" where
  "CodeFromDerivedPointer M addr = addr - Code_kHeaderSize M"

definition marking_VisitCodeTarget :: "object_model \<Rightarrow> rinfo \<Rightarrow> gc_heap \<Rightarrow> gc_heap" where
  "marking_VisitCodeTarget M r h =
     (let code = CodeFromDerivedPointer M (target_address h r);
          h1 = (if FLAG_cleanup_ics_at_gc M \<and> is_inline_cache_stub M code
                then h\<lparr>target_address := IC_Clear M r (target_address h)\<rparr>
                else MarkObject M code h)
      in if compacting M
         then h1\<lparr>target_address :=
                   (target_address h1)(r := CodeFromDerivedPointer M (target_address h1 r))\<rparr>
         else h1)"

definition marking_VisitDebugTarget :: "object_model \<Rightarrow> rinfo \<Rightarrow> gc_heap \<Rightarrow> gc_heap" where
  "marking_VisitDebugTarget M r h =
     (let code = CodeFromDerivedPointer M (target_address h r);
          h1 = MarkObject M code h
      in if compacting M then h1\<lparr>target_address := (target_address h1)(r := code)\<rparr> else h1)"

definition marking_EndCodeIteration :: "object_model \<Rightarrow> address \<Rightarrow> gc_heap \<Rightarrow> gc_heap" where
  "marking_EndCodeIteration M code h =
     (if compacting M then h\<lparr>ic_flag := (ic_flag h)(code := True)\<rparr> else h)"

text \<open>
  A visitor (\<^verbatim>\<open>ObjectVisitor\<close>, objects.h) is the record of its methods; a method that
  does not return is \<open>None\<close>.
\<close>

record 's ObjectVisitor =
  VisitPointer :: "slot_ptr \<Rightarrow> 's \<Rightarrow> 's option"
  VisitPointers :: "slot_ptr \<Rightarrow> slot_ptr \<Rightarrow> 's \<Rightarrow> 's option"
  VisitCodeTarget :: "rinfo \<Rightarrow> 's \<Rightarrow> 's option"
  VisitDebugTarget :: "rinfo \<Rightarrow> 's \<Rightarrow> 's option"
  BeginCodeIteration :: "address \<Rightarrow> 's \<Rightarrow> 's option"
  EndCodeIteration :: "address \<Rightarrow> 's \<Rightarrow> 's option"

fun for_each :: "('x \<Rightarrow> 's \<Rightarrow> 's option) \<Rightarrow> 'x list \<Rightarrow> 's \<Rightarrow> 's option" where
  "for_each f [] s = Some s"
| "for_each f (x # xs) s = Option.bind (f x s) (for_each f xs)"

fun visit_item :: "'s ObjectVisitor \<Rightarrow> body_item \<Rightarrow> 's \<Rightarrow> 's option" where
  "visit_item v (Pointer p) = VisitPointer v p"
| "visit_item v (Pointers start end') = VisitPointers v start end'"
| "visit_item v (CodeTarget r) = VisitCodeTarget v r"
| "visit_item v (DebugTarget r) = VisitDebugTarget v r"
| "visit_item v (BeginCode code) = BeginCodeIteration v code"
| "visit_item v (EndCode code) = EndCodeIteration v code"

definition IterateBody :: "object_model \<Rightarrow> 's ObjectVisitor \<Rightarrow> address \<Rightarrow> 's \<Rightarrow> 's option" where
  "IterateBody M v obj = for_each (visit_item v) (body M obj)"

definition kMinRangeForMarkingRecursion :: int where
  "kMinRangeForMarkingRecursion = 64"

text \<open>
  \<open>VisitUnmarkedObjects\<close> returns whether it has visited the range; \<open>visit\<close> is
  \<open>VisitUnmarkedObject\<close> one level further down the recursion, and \<open>depth\<close> is the number
  of calls of \<open>VisitUnmarkedObject\<close> that are on the C++ stack.
\<close>

definition VisitUnmarkedObjects ::
  "object_model \<Rightarrow> (address \<Rightarrow> gc_heap \<Rightarrow> gc_heap option) \<Rightarrow> nat \<Rightarrow> slot_ptr \<Rightarrow> slot_ptr \<Rightarrow>
   gc_heap \<Rightarrow> (bool \<times> gc_heap) option" where
  "VisitUnmarkedObjects M visit depth start end' h =
     (if HasOverflowed M depth then Some (False, h)
      else map_option (Pair True)
             (for_each (\<lambda>p h'. if \<not> IsHeapObject (slot h' p) then Some h'
                                else if obj_IsMarked h' (address (slot h' p)) then Some h'
                                else visit (address (slot h' p)) h')
                [start..end' - 1] h))"

definition marking_VisitPointers ::
  "object_model \<Rightarrow> (address \<Rightarrow> gc_heap \<Rightarrow> gc_heap option) \<Rightarrow> nat \<Rightarrow> slot_ptr \<Rightarrow> slot_ptr \<Rightarrow>
   gc_heap \<Rightarrow> gc_heap option" where
  "marking_VisitPointers M visit depth start end' h =
     (let mark_all = (\<lambda>h'. Some (fold (MarkObjectByPointer M) [start..end' - 1] h'))
      in if kMinRangeForMarkingRecursion \<le> end' - start then
           (case VisitUnmarkedObjects M visit depth start end' h of
              None \<Rightarrow> None
            | Some (True, h') \<Rightarrow> Some h'
            | Some (False, h') \<Rightarrow> mark_all h')
         else mark_all h)"

definition marking_visitor ::
  "object_model \<Rightarrow> (address \<Rightarrow> gc_heap \<Rightarrow> gc_heap option) \<Rightarrow> nat \<Rightarrow> gc_heap ObjectVisitor" where
  "marking_visitor M visit depth =
     \<lparr>VisitPointer = (\<lambda>p h. Some (MarkObjectByPointer M p h)),
      VisitPointers = marking_VisitPointers M visit depth,
      VisitCodeTarget = (\<lambda>r h. Some (marking_VisitCodeTarget M r h)),
      VisitDebugTarget = (\<lambda>r h. Some (marking_VisitDebugTarget M r h)),
      BeginCodeIteration = (\<lambda>code h. Some h),
      EndCodeIteration = (\<lambda>code h. Some (marking_EndCodeIteration M code h))\<rparr>"

text \<open>
  \<open>VisitUnmarkedObject\<close> calls itself through \<open>IterateBody\<close> and \<open>VisitPointers\<close>. The
  first argument bounds the depth of that recursion; a run that needs more is \<open>None\<close>.
\<close>

primrec VisitUnmarkedObject ::
  "object_model \<Rightarrow> nat \<Rightarrow> nat \<Rightarrow> address \<Rightarrow> gc_heap \<Rightarrow> gc_heap option" where
  "VisitUnmarkedObject M 0 depth obj h = None"
| "VisitUnmarkedObject M (Suc n) depth obj h =
     (let map = obj_map h obj;
          h1 = obj_SetMark obj h;
          h2 = h1\<lparr>gc_tracer := increment_marked_count (gc_tracer h1)\<rparr>;
          h3 = MarkObject M map h2
      in IterateBody M (marking_visitor M (VisitUnmarkedObject M n (Suc depth)) (Suc depth)) obj h3)"

text \<open>The visitor that \<open>MarkLiveObjects\<close> creates, at the bottom of the recursion.\<close>

definition MarkingVisitor :: "object_model \<Rightarrow> nat \<Rightarrow> gc_heap ObjectVisitor" where
  "MarkingVisitor M n = marking_visitor M (VisitUnmarkedObject M n 0) 0"

subsection \<open>The marking stack and the objects left behind by an overflow\<close>

text \<open>
  \<open>VisitOverflowedObject\<close> returns \<open>False\<close> when the scan has to stop. The iterators of
  the spaces (spaces.h) yield the objects of a space in the order of \<open>objects_in\<close>.
\<close>

definition VisitOverflowedObject :: "object_model \<Rightarrow> address \<Rightarrow> gc_heap \<Rightarrow> bool \<times> gc_heap" where
  "VisitOverflowedObject M obj h =
     (if \<not> obj_IsOverflowed h obj then (True, h)
      else if overflowed h then (False, h)
      else (True, Push M obj (obj_ClearOverflow obj h)))"

fun scan_loop :: "object_model \<Rightarrow> address list \<Rightarrow> gc_heap \<Rightarrow> gc_heap" where
  "scan_loop M [] h = h"
| "scan_loop M (obj # objs) h =
     (case VisitOverflowedObject M obj h of
        (True, h') \<Rightarrow> scan_loop M objs h'
      | (False, h') \<Rightarrow> h')"

definition ScanOverflowedObjects :: "object_model \<Rightarrow> AllocationSpace \<Rightarrow> gc_heap \<Rightarrow> gc_heap" where
  "ScanOverflowedObjects M space h =
     scan_loop M (objects_in M space) h"

text \<open>
  The part of the loop of \<open>ProcessMarkingStack\<close> after the test of the overflow flag:
  each \<^verbatim>\<open>continue\<close> of the source leaves the rest of the scans out.
\<close>

definition refill_marking_stack :: "object_model \<Rightarrow> gc_heap \<Rightarrow> gc_heap" where
  "refill_marking_stack M h =
     (let h0 = clear_overflowed h;
          h1 = ScanOverflowedObjects M NEW_SPACE h0
      in if overflowed h1 then h1
         else (let h2 = ScanOverflowedObjects M OLD_SPACE h1
               in if overflowed h2 then h2
                  else (let h3 = ScanOverflowedObjects M CODE_SPACE h2
                        in if overflowed h3 then h3
                           else (let h4 = ScanOverflowedObjects M MAP_SPACE h3
                                 in if overflowed h4 then h4
                                    else ScanOverflowedObjects M LO_SPACE h4))))"

text \<open>The body of the inner loop: one object is taken from the stack and its body visited.\<close>

definition process_object :: "object_model \<Rightarrow> gc_heap ObjectVisitor \<Rightarrow> gc_heap \<Rightarrow> gc_heap option" where
  "process_object M v h =
     (case marking_stack h of
        [] \<Rightarrow> Some h
      | object # rest \<Rightarrow>
          (let h1 = h\<lparr>marking_stack := rest\<rparr>;
               map = ToMap (ClearMark (map_word h1 object));
               h2 = MarkObject M map h1
           in IterateBody M v object h2))"

text \<open>
  Both loops of \<open>ProcessMarkingStack\<close> go on as long as there are gray objects; the first
  argument bounds the number of their rounds, and a run that needs more is \<open>None\<close>.
\<close>

fun drain_marking_stack ::
  "object_model \<Rightarrow> gc_heap ObjectVisitor \<Rightarrow> nat \<Rightarrow> gc_heap \<Rightarrow> gc_heap option" where
  "drain_marking_stack M v 0 h = (if is_empty h then Some h else None)"
| "drain_marking_stack M v (Suc n) h =
     (if \<not> is_empty h then Option.bind (process_object M v h) (drain_marking_stack M v n)
      else Some h)"

fun ProcessMarkingStack ::
  "object_model \<Rightarrow> gc_heap ObjectVisitor \<Rightarrow> nat \<Rightarrow> gc_heap \<Rightarrow> gc_heap option" where
  "ProcessMarkingStack M v 0 h = None"
| "ProcessMarkingStack M v (Suc n) h =
     Option.bind (drain_marking_stack M v n h)
       (\<lambda>h1. if \<not> overflowed h1 then Some h1
              else ProcessMarkingStack M v n (refill_marking_stack M h1))"

section \<open>Phases 2 and 4: forwarding addresses and relocation\<close>

subsection \<open>State and parameters\<close>

text \<open>
  The events that the collector reports to the logger (\<^verbatim>\<open>LOG(CodeDeleteEvent(...))\<close>,
  \<^verbatim>\<open>LOG(CodeMoveEvent(...))\<close>), and two ghost events: the start of the encoding of the
  forwarding addresses of a space, and the relocation of an object of a space from an old
  to a new address.
\<close>

datatype gc_event =
    CodeDeleteEvent address
  | CodeMoveEvent address address
  | Encoding AllocationSpace
  | Relocated AllocationSpace address address

text \<open>
  The heap of a compacting collection: the state \<open>'s\<close> of the allocators of the spaces
  with the log of the requests made, and the log of the events.
\<close>

record 's mc_heap = gc_heap +
  alloc :: "'s allocation"
  events :: "gc_event list"

text \<open>
  The code of spaces.cc, objects.cc and the C library that phases 2 and 4 call, as
  parameters: the geometry, the size of an object given its map, the instance type of code
  objects and the size of a map, the pages in use of a paged space and the allocation top
  of a page, the bounds of the active semispace, the allocators and the kind of an object
  that \<^verbatim>\<open>TargetSpace\<close> looks at, the bookkeeping of the relocation (\<^verbatim>\<open>MCResetRelocationInfo\<close>,
  \<^verbatim>\<open>MCWriteRelocationInfoToPage\<close>, \<^verbatim>\<open>MCAdjustRelocationEnd\<close>, \<^verbatim>\<open>MCCommitRelocationInfo\<close>,
  \<^verbatim>\<open>Flip\<close>, \<^verbatim>\<open>set_age_mark\<close>), \<^verbatim>\<open>memmove\<close> and \<^verbatim>\<open>memcpy\<close> on the three stores of the
  heap, \<^verbatim>\<open>Code::Relocate\<close> and \<^verbatim>\<open>Code::ConvertICTargetsFromObjectToAddress\<close>, the large
  objects, and the test \<^verbatim>\<open>FromSpaceContains\<close>.
\<close>

record 's space_model =
  geo :: geometry
  SizeFromMap :: "address \<Rightarrow> address \<Rightarrow> int"
  CODE_TYPE :: int
  Map_kSize :: int
  PAGES_IN_USE :: "AllocationSpace \<Rightarrow> address list"
  AllocationTop :: "address \<Rightarrow> address"
  new_space_bottom :: "'s \<Rightarrow> address"
  new_space_top :: "'s \<Rightarrow> address"
  raw_allocate :: "AllocationSpace \<Rightarrow> int \<Rightarrow> 's \<Rightarrow> Object \<times> 's"
  kind_of :: "address \<Rightarrow> object_kind"
  MCResetRelocationInfo :: "'s \<Rightarrow> 's"
  MCWriteRelocationInfoToPage :: "AllocationSpace \<Rightarrow> 's \<Rightarrow> (address \<Rightarrow> Page) \<Rightarrow> address \<Rightarrow> Page"
  MCAdjustRelocationEnd :: "AllocationSpace \<Rightarrow> address \<Rightarrow> int \<Rightarrow> 's \<Rightarrow> 's"
  MCCommitRelocationInfo :: "AllocationSpace \<Rightarrow> 's \<Rightarrow> 's"
  Flip :: "'s \<Rightarrow> 's"
  set_age_mark :: "address \<Rightarrow> 's \<Rightarrow> 's"
  memmove :: "address \<Rightarrow> address \<Rightarrow> int \<Rightarrow> heap \<Rightarrow> heap"
  memcpy :: "address \<Rightarrow> address \<Rightarrow> int \<Rightarrow> heap \<Rightarrow> heap"
  Code_Relocate :: "address \<Rightarrow> int \<Rightarrow> gc_heap \<Rightarrow> gc_heap"
  ConvertICTargetsFromObjectToAddress :: "address \<Rightarrow> gc_heap \<Rightarrow> gc_heap"
  lo_objects :: "address list"
  FromSpaceContains :: "address \<Rightarrow> bool"

text \<open>
  A parameter that works on the stores of the heap, or on the heap of the collector,
  leaves the rest of the state as it is.
\<close>

definition on_stores :: "(heap \<Rightarrow> heap) \<Rightarrow> 's mc_heap \<Rightarrow> 's mc_heap" where
  "on_stores f h = heap.extend (f (heap.truncate h)) (heap.more h)"

definition on_gc_heap :: "(gc_heap \<Rightarrow> gc_heap) \<Rightarrow> 's mc_heap \<Rightarrow> 's mc_heap" where
  "on_gc_heap f h = gc_heap.extend (f (gc_heap.truncate h)) (gc_heap.more h)"

definition on_spaces :: "('s \<Rightarrow> 's) \<Rightarrow> 's mc_heap \<Rightarrow> 's mc_heap" where
  "on_spaces f h = h\<lparr>alloc := (alloc h)\<lparr>spaces := f (spaces (alloc h))\<rparr>\<rparr>"

definition LOG :: "gc_event \<Rightarrow> 's mc_heap \<Rightarrow> 's mc_heap" where
  "LOG e h = h\<lparr>events := events h @ [e]\<rparr>"

definition obj_Size :: "'s space_model \<Rightarrow> 'a heap_scheme \<Rightarrow> address \<Rightarrow> int" where
  "obj_Size S h obj = SizeFromMap S obj (obj_map h obj)"

definition IsCode :: "object_model \<Rightarrow> 's space_model \<Rightarrow> 'a heap_scheme \<Rightarrow> address \<Rightarrow> bool" where
  "IsCode M S h obj = (instance_type M (obj_map h obj) = CODE_TYPE S)"

definition allocate ::
  "(address \<Rightarrow> int \<Rightarrow> 's allocation \<Rightarrow> Object \<times> 's allocation) \<Rightarrow> address \<Rightarrow> int \<Rightarrow>
   's mc_heap \<Rightarrow> Object \<times> 's mc_heap" where
  "allocate f object object_size h =
     (let (forwarded, a) = f object object_size (alloc h) in (forwarded, h\<lparr>alloc := a\<rparr>))"

subsection \<open>The allocation and encoding functions of the spaces\<close>

definition MCAllocateFromOldSpace ::
  "'s space_model \<Rightarrow> address \<Rightarrow> int \<Rightarrow> 's allocation \<Rightarrow> Object \<times> 's allocation" where
  "MCAllocateFromOldSpace S object object_size = MCAllocateRaw (raw_allocate S) OLD_SPACE object_size"

definition MCAllocateFromCodeSpace ::
  "'s space_model \<Rightarrow> address \<Rightarrow> int \<Rightarrow> 's allocation \<Rightarrow> Object \<times> 's allocation" where
  "MCAllocateFromCodeSpace S object object_size =
     MCAllocateRaw (raw_allocate S) CODE_SPACE object_size"

definition MCAllocateFromMapSpace ::
  "'s space_model \<Rightarrow> address \<Rightarrow> int \<Rightarrow> 's allocation \<Rightarrow> Object \<times> 's allocation" where
  "MCAllocateFromMapSpace S object object_size = MCAllocateRaw (raw_allocate S) MAP_SPACE object_size"

text \<open>An encoding function gets the offset counter and returns its new value.\<close>

definition EncodeForwardingAddressInNewSpace ::
  "'s space_model \<Rightarrow> address \<Rightarrow> int \<Rightarrow> Object \<Rightarrow> int \<Rightarrow> 's mc_heap \<Rightarrow> int \<times> 's mc_heap" where
  "EncodeForwardingAddressInNewSpace S old_object object_size new_object ignored h =
     (let offset = ToSpaceOffsetForAddress (geo S) old_object
      in (ignored, Memory_store (FromSpaceLow (geo S) + offset) (address new_object) h))"

definition EncodeForwardingAddressInPagedSpace ::
  "'s space_model \<Rightarrow> address \<Rightarrow> int \<Rightarrow> Object \<Rightarrow> int \<Rightarrow> 's mc_heap \<Rightarrow> int \<times> 's mc_heap" where
  "EncodeForwardingAddressInPagedSpace S old_object object_size new_object offset h =
     (let h1 = (if offset = 0
                then h\<lparr>page := (page h)(Page_FromAddress (geo S) old_object :=
                          (page h (Page_FromAddress (geo S) old_object))
                            \<lparr>mc_first_forwarded := address new_object\<rparr>)\<rparr>
                else h);
          encoding = EncodeAddress (obj_map h1 old_object) offset
      in (offset + object_size, set_map_word old_object encoding h1))"

definition IgnoreNonLiveObject :: "address \<Rightarrow> 's mc_heap \<Rightarrow> 's mc_heap" where
  "IgnoreNonLiveObject object h = h"

definition LogNonLiveCodeObject ::
  "object_model \<Rightarrow> 's space_model \<Rightarrow> address \<Rightarrow> 's mc_heap \<Rightarrow> 's mc_heap" where
  "LogNonLiveCodeObject M S object h =
     (if IsCode M S h object then LOG (CodeDeleteEvent object) h else h)"

subsection \<open>EncodeForwardingAddressesInRange\<close>

text \<open>
  One round of the loop for the object at \<open>current\<close>: the result is the size of the
  object, the start of the current free region, whether the object was live, the offset
  counter and the heap.
\<close>

definition encode_object ::
  "'s space_model \<Rightarrow> (address \<Rightarrow> int \<Rightarrow> 's allocation \<Rightarrow> Object \<times> 's allocation) \<Rightarrow>
   (address \<Rightarrow> int \<Rightarrow> Object \<Rightarrow> int \<Rightarrow> 's mc_heap \<Rightarrow> int \<times> 's mc_heap) \<Rightarrow>
   (address \<Rightarrow> 's mc_heap \<Rightarrow> 's mc_heap) \<Rightarrow>
   address \<Rightarrow> address \<Rightarrow> bool \<Rightarrow> int \<Rightarrow> 's mc_heap \<Rightarrow> int \<times> address \<times> bool \<times> int \<times> 's mc_heap" where
  "encode_object S Alloc Encode ProcessNonLive current free_start is_prev_alive offset h =
     (if obj_IsMarked h current then
        (let h1 = obj_ClearMark current h;
             h2 = h1\<lparr>gc_tracer := decrement_marked_count (gc_tracer h1)\<rparr>;
             object_size = obj_Size S h2 current;
             (forwarded, h3) = allocate Alloc current object_size h2;
             (offset', h4) = Encode current object_size forwarded offset h3;
             h5 = (if \<not> is_prev_alive
                   then EncodeFreeRegion free_start (current - free_start) h4 else h4)
         in (object_size, free_start, True, offset', h5))
      else
        (let object_size = obj_Size S h current;
             h1 = ProcessNonLive current h
         in (object_size, if is_prev_alive then current else free_start, False, offset, h1)))"

partial_function (option) encode_loop ::
  "'s space_model \<Rightarrow> (address \<Rightarrow> int \<Rightarrow> 's allocation \<Rightarrow> Object \<times> 's allocation) \<Rightarrow>
   (address \<Rightarrow> int \<Rightarrow> Object \<Rightarrow> int \<Rightarrow> 's mc_heap \<Rightarrow> int \<times> 's mc_heap) \<Rightarrow>
   (address \<Rightarrow> 's mc_heap \<Rightarrow> 's mc_heap) \<Rightarrow>
   address \<Rightarrow> address \<Rightarrow> address \<times> bool \<times> int \<times> 's mc_heap \<Rightarrow>
   (address \<times> bool \<times> int \<times> 's mc_heap) option" where
  "encode_loop S Alloc Encode ProcessNonLive end' current st =
     (if current < end' then
        (case st of (free_start, is_prev_alive, offset, h) \<Rightarrow>
           (case encode_object S Alloc Encode ProcessNonLive current free_start is_prev_alive
                   offset h of
              (object_size, st') \<Rightarrow>
                encode_loop S Alloc Encode ProcessNonLive end' (current + object_size) st'))
      else Some st)"

definition EncodeForwardingAddressesInRange ::
  "'s space_model \<Rightarrow> (address \<Rightarrow> int \<Rightarrow> 's allocation \<Rightarrow> Object \<times> 's allocation) \<Rightarrow>
   (address \<Rightarrow> int \<Rightarrow> Object \<Rightarrow> int \<Rightarrow> 's mc_heap \<Rightarrow> int \<times> 's mc_heap) \<Rightarrow>
   (address \<Rightarrow> 's mc_heap \<Rightarrow> 's mc_heap) \<Rightarrow>
   address \<Rightarrow> address \<Rightarrow> int \<Rightarrow> 's mc_heap \<Rightarrow> (int \<times> 's mc_heap) option" where
  "EncodeForwardingAddressesInRange S Alloc Encode ProcessNonLive start end' offset h =
     (case encode_loop S Alloc Encode ProcessNonLive end' start (0, True, offset, h) of
        None \<Rightarrow> None
      | Some (free_start, is_prev_alive, offset', h') \<Rightarrow>
          Some (offset', if \<not> is_prev_alive
                         then EncodeFreeRegion free_start (end' - free_start) h' else h'))"

subsection \<open>The spaces\<close>

definition EncodeForwardingAddressesInNewSpace ::
  "'s space_model \<Rightarrow> 's mc_heap \<Rightarrow> 's mc_heap option" where
  "EncodeForwardingAddressesInNewSpace S h =
     map_option snd
       (EncodeForwardingAddressesInRange S (MCAllocateFromNewSpace (raw_allocate S) (kind_of S))
          (EncodeForwardingAddressInNewSpace S) IgnoreNonLiveObject
          (new_space_bottom S (spaces (alloc h))) (new_space_top S (spaces (alloc h))) 0
          (LOG (Encoding NEW_SPACE) h))"

definition EncodeForwardingAddressesInPagedSpace ::
  "'s space_model \<Rightarrow> (address \<Rightarrow> int \<Rightarrow> 's allocation \<Rightarrow> Object \<times> 's allocation) \<Rightarrow>
   (address \<Rightarrow> 's mc_heap \<Rightarrow> 's mc_heap) \<Rightarrow> AllocationSpace \<Rightarrow> 's mc_heap \<Rightarrow> 's mc_heap option" where
  "EncodeForwardingAddressesInPagedSpace S Alloc ProcessNonLive space h =
     for_each
       (\<lambda>p h'. map_option snd
          (EncodeForwardingAddressesInRange S Alloc (EncodeForwardingAddressInPagedSpace S)
             ProcessNonLive (ObjectAreaStart (geo S) p) (AllocationTop S p) 0 h'))
       (PAGES_IN_USE S space) (LOG (Encoding space) h)"

definition write_relocation_info :: "'s space_model \<Rightarrow> AllocationSpace \<Rightarrow> 's mc_heap \<Rightarrow> 's mc_heap" where
  "write_relocation_info S space h =
     h\<lparr>page := MCWriteRelocationInfoToPage S space (spaces (alloc h)) (page h)\<rparr>"

definition EncodeForwardingAddresses_work ::
  "object_model \<Rightarrow> 's space_model \<Rightarrow> 's mc_heap \<Rightarrow> 's mc_heap option" where
  "EncodeForwardingAddresses_work M S h =
     Option.bind
       (EncodeForwardingAddressesInPagedSpace S (MCAllocateFromOldSpace S) IgnoreNonLiveObject
          OLD_SPACE (on_spaces (MCResetRelocationInfo S) h))
       (\<lambda>h1. Option.bind
          (EncodeForwardingAddressesInPagedSpace S (MCAllocateFromCodeSpace S)
             (LogNonLiveCodeObject M S) CODE_SPACE h1)
          (\<lambda>h2. Option.bind (EncodeForwardingAddressesInNewSpace S h2)
             (\<lambda>h3. Option.bind
                (EncodeForwardingAddressesInPagedSpace S (MCAllocateFromMapSpace S)
                   IgnoreNonLiveObject MAP_SPACE h3)
                (\<lambda>h4. Some (write_relocation_info S MAP_SPACE
                              (write_relocation_info S CODE_SPACE
                                (write_relocation_info S OLD_SPACE h4)))))))"

subsection \<open>IterateLiveObjects\<close>

definition IterateLiveObjects_NewSpace ::
  "'s space_model \<Rightarrow> (address \<Rightarrow> 's mc_heap \<Rightarrow> int \<times> 's mc_heap) \<Rightarrow> 's mc_heap \<Rightarrow>
   (int \<times> 's mc_heap) option" where
  "IterateLiveObjects_NewSpace S size_f h =
     IterateLiveObjectsInRange (new_space_bottom S (spaces (alloc h)))
       (new_space_top S (spaces (alloc h))) size_f h"

fun iterate_pages ::
  "'s space_model \<Rightarrow> (address \<Rightarrow> 's mc_heap \<Rightarrow> int \<times> 's mc_heap) \<Rightarrow> address list \<Rightarrow> int \<Rightarrow>
   's mc_heap \<Rightarrow> (int \<times> 's mc_heap) option" where
  "iterate_pages S size_f [] total' h = Some (total', h)"
| "iterate_pages S size_f (p # ps) total' h =
     (case IterateLiveObjectsInRange (ObjectAreaStart (geo S) p) (AllocationTop S p) size_f h of
        None \<Rightarrow> None
      | Some (n, h') \<Rightarrow> iterate_pages S size_f ps (total' + n) h')"

definition IterateLiveObjects_PagedSpace ::
  "'s space_model \<Rightarrow> AllocationSpace \<Rightarrow> (address \<Rightarrow> 's mc_heap \<Rightarrow> int \<times> 's mc_heap) \<Rightarrow>
   's mc_heap \<Rightarrow> (int \<times> 's mc_heap) option" where
  "IterateLiveObjects_PagedSpace S space size_f h =
     iterate_pages S size_f (PAGES_IN_USE S space) 0 h"

subsection \<open>Relocation of one object\<close>

text \<open>\<^verbatim>\<open>obj->set_map(map)\<close> stores the plain pointer to the map.\<close>

definition set_map :: "address \<Rightarrow> address \<Rightarrow> 'a heap_scheme \<Rightarrow> 'a heap_scheme" where
  "set_map obj m h = set_map_word obj (MapPointer m False False) h"

definition relocate_code ::
  "object_model \<Rightarrow> 's space_model \<Rightarrow> address \<Rightarrow> address \<Rightarrow> 's mc_heap \<Rightarrow> 's mc_heap" where
  "relocate_code M S old_addr new_addr h =
     (if IsCode M S h new_addr
      then LOG (CodeMoveEvent old_addr new_addr)
             (on_gc_heap (Code_Relocate S new_addr (new_addr - old_addr)) h)
      else h)"

definition RelocateMapObject :: "'s space_model \<Rightarrow> address \<Rightarrow> 's mc_heap \<Rightarrow> int \<times> 's mc_heap" where
  "RelocateMapObject S obj h =
     (let encoding = map_word h obj;
          map_addr = DecodeMapAddress encoding;
          new_addr = GetForwardingAddressInOldSpace (geo S) h obj;
          h1 = set_map obj map_addr h;
          old_addr = obj;
          h2 = (if new_addr \<noteq> old_addr
                then on_stores (memmove S new_addr old_addr (Map_kSize S)) h1 else h1)
      in (Map_kSize S, LOG (Relocated MAP_SPACE old_addr new_addr) h2))"

definition RelocateOldObject ::
  "object_model \<Rightarrow> 's space_model \<Rightarrow> address \<Rightarrow> 's mc_heap \<Rightarrow> int \<times> 's mc_heap" where
  "RelocateOldObject M S obj h =
     (let encoding = map_word h obj;
          map_addr = DecodeMapAddress encoding;
          new_addr = GetForwardingAddressInOldSpace (geo S) h obj;
          h1 = set_map obj map_addr h;
          obj_size = obj_Size S h1 obj;
          old_addr = obj;
          h2 = on_spaces (MCAdjustRelocationEnd S OLD_SPACE new_addr obj_size) h1;
          h3 = (if new_addr \<noteq> old_addr
                then on_stores (memmove S new_addr old_addr obj_size) h2 else h2);
          h4 = relocate_code M S old_addr new_addr h3
      in (obj_size, LOG (Relocated OLD_SPACE old_addr new_addr) h4))"

definition RelocateCodeObject ::
  "object_model \<Rightarrow> 's space_model \<Rightarrow> address \<Rightarrow> 's mc_heap \<Rightarrow> int \<times> 's mc_heap" where
  "RelocateCodeObject M S obj h =
     (let encoding = map_word h obj;
          map_addr = DecodeMapAddress encoding;
          new_addr = GetForwardingAddressInOldSpace (geo S) h obj;
          h1 = set_map obj map_addr h;
          obj_size = obj_Size S h1 obj;
          old_addr = obj;
          h2 = on_spaces (MCAdjustRelocationEnd S CODE_SPACE new_addr obj_size) h1;
          h3 = (if IsCode M S h2 obj
                then on_gc_heap (ConvertICTargetsFromObjectToAddress S obj) h2 else h2);
          h4 = (if new_addr \<noteq> old_addr
                then on_stores (memmove S new_addr old_addr obj_size) h3 else h3);
          h5 = relocate_code M S old_addr new_addr h4
      in (obj_size, LOG (Relocated CODE_SPACE old_addr new_addr) h5))"

definition RelocateNewObject :: "'s space_model \<Rightarrow> address \<Rightarrow> 's mc_heap \<Rightarrow> int \<times> 's mc_heap" where
  "RelocateNewObject S obj h =
     (let obj_size = obj_Size S h obj;
          old_addr = obj;
          offset = ToSpaceOffsetForAddress (geo S) old_addr;
          new_addr = Address_at h (FromSpaceLow (geo S) + offset);
          h1 = (if FromSpaceContains S new_addr then h
                else if TargetSpace (kind_of S obj) = OLD_SPACE
                     then on_spaces (MCAdjustRelocationEnd S OLD_SPACE new_addr obj_size) h
                     else on_spaces (MCAdjustRelocationEnd S CODE_SPACE new_addr obj_size) h);
          h2 = on_stores (memcpy S new_addr old_addr obj_size) h1
      in (obj_size, LOG (Relocated NEW_SPACE old_addr new_addr) h2))"

definition ConvertCodeICTargetToAddress ::
  "object_model \<Rightarrow> 's space_model \<Rightarrow> address \<Rightarrow> 's mc_heap \<Rightarrow> 's mc_heap" where
  "ConvertCodeICTargetToAddress M S obj h =
     (if IsCode M S h obj then on_gc_heap (ConvertICTargetsFromObjectToAddress S obj) h else h)"

subsection \<open>RelocateObjects\<close>

definition RelocateObjects_work ::
  "object_model \<Rightarrow> 's space_model \<Rightarrow> 's mc_heap \<Rightarrow> 's mc_heap option" where
  "RelocateObjects_work M S h =
     Option.bind (IterateLiveObjects_PagedSpace S MAP_SPACE (RelocateMapObject S) h)
       (\<lambda>(live_maps, h1).
          Option.bind (IterateLiveObjects_PagedSpace S OLD_SPACE (RelocateOldObject M S) h1)
            (\<lambda>(live_olds, h2).
               Option.bind
                 (IterateLiveObjects_PagedSpace S CODE_SPACE (RelocateCodeObject M S) h2)
                 (\<lambda>(live_immutables, h3).
                    Option.bind (IterateLiveObjects_NewSpace S (RelocateNewObject S) h3)
                      (\<lambda>(live_news, h4).
                         (let h5 = fold (ConvertCodeICTargetToAddress M S) (lo_objects S) h4;
                              h6 = on_spaces (Flip S) h5;
                              mark = new_space_bottom S (spaces (alloc h6));
                              h7 = on_spaces (set_age_mark S mark) h6;
                              h8 = on_spaces (MCCommitRelocationInfo S NEW_SPACE) h7;
                              h9 = on_spaces (MCCommitRelocationInfo S MAP_SPACE) h8;
                              h10 = on_spaces (MCCommitRelocationInfo S OLD_SPACE) h9
                          in Some (on_spaces (MCCommitRelocationInfo S CODE_SPACE) h10))))))"

subsection \<open>Reading the logs\<close>

text \<open>
  \<open>appended P xs ys\<close>: the log \<open>ys\<close> is the log \<open>xs\<close> with further entries, all of
  which satisfy \<open>P\<close>.
\<close>

definition appended :: "('a \<Rightarrow> bool) \<Rightarrow> 'a list \<Rightarrow> 'a list \<Rightarrow> bool" where
  "appended P xs ys = (take (length xs) ys = xs \<and> list_all P (drop (length xs) ys))"

fun encoded_space :: "gc_event \<Rightarrow> AllocationSpace option" where
  "encoded_space (Encoding space) = Some space"
| "encoded_space e = None"

fun relocated_space :: "gc_event \<Rightarrow> AllocationSpace option" where
  "relocated_space (Relocated space old_addr new_addr) = Some space"
| "relocated_space e = None"

text \<open>
  \<open>relocates space e\<close>: the event is no relocation, or the relocation of an object of the
  space. \<open>logs_grow P h h'\<close>: from \<open>h\<close> to \<open>h'\<close> the allocators got further requests,
  all of which satisfy \<open>P\<close>, and the events got further entries, none of which is the start
  of the encoding of a space.
\<close>

definition relocates :: "AllocationSpace \<Rightarrow> gc_event \<Rightarrow> bool" where
  "relocates space e = (relocated_space e = None \<or> relocated_space e = Some space)"

definition logs_grow ::
  "((AllocationSpace \<times> int) \<Rightarrow> bool) \<Rightarrow> 's mc_heap \<Rightarrow> 's mc_heap \<Rightarrow> bool" where
  "logs_grow P h h' =
     (appended P (requests (alloc h)) (requests (alloc h')) \<and>
      appended (\<lambda>e. encoded_space e = None) (events h) (events h'))"

section \<open>The colours of the marking phase\<close>

text \<open>
  The map of an object, whatever the bits of its map word, and what makes an object a
  cons string: the instance type of its map is a string type with the cons
  representation.
\<close>

definition true_map :: "'a heap_scheme \<Rightarrow> address \<Rightarrow> address" where
  "true_map h obj = map_address (map_word h obj)"

definition is_cons_string :: "object_model \<Rightarrow> 'a heap_scheme \<Rightarrow> address \<Rightarrow> bool" where
  "is_cons_string M h obj =
     (let type = instance_type M (true_map h obj)
      in type < FIRST_NONSTRING_TYPE M \<and>
         and type (kStringRepresentationMask M) = kConsStringTag M)"

text \<open>
  The comment above \<open>ProcessMarkingStack\<close> names three colours. A white object is not
  marked. A gray object is marked and either on the marking stack or overflowed. A black
  object is marked and not gray, and the objects that it refers to are marked: its map,
  the heap objects in the slots of its body, and the targets of its relocation entries.

  A slot is in order when it holds no heap object or a marked one.
\<close>

definition slot_ok :: "'a heap_scheme \<Rightarrow> slot_ptr \<Rightarrow> bool" where
  "slot_ok h p = (IsHeapObject (slot h p) \<longrightarrow> obj_IsMarked h (address (slot h p)))"

text \<open>
  The code object that a relocation entry refers to: the visitor of a compacting
  collection has stored the object where the derived pointer was. The target of an entry
  is in order when that code object is marked; under \<^verbatim>\<open>cleanup_ics_at_gc\<close> the visitor
  clears inline caches instead of marking their stubs, and nothing is said.
\<close>

definition code_of :: "object_model \<Rightarrow> gc_heap \<Rightarrow> rinfo \<Rightarrow> address" where
  "code_of M h r =
     (if compacting M then target_address h r
      else CodeFromDerivedPointer M (target_address h r))"

definition target_ok :: "object_model \<Rightarrow> gc_heap \<Rightarrow> rinfo \<Rightarrow> bool" where
  "target_ok M h r = (FLAG_cleanup_ics_at_gc M \<or> obj_IsMarked h (code_of M h r))"

fun item_slots :: "body_item \<Rightarrow> slot_ptr set" where
  "item_slots (Pointer p) = {p}"
| "item_slots (Pointers start end') = set [start..end' - 1]"
| "item_slots i = {}"

fun item_targets :: "body_item \<Rightarrow> rinfo set" where
  "item_targets (CodeTarget r) = {r}"
| "item_targets (DebugTarget r) = {r}"
| "item_targets i = {}"

definition item_ok :: "object_model \<Rightarrow> body_item \<Rightarrow> gc_heap \<Rightarrow> bool" where
  "item_ok M i h = ((\<forall>p \<in> item_slots i. slot_ok h p) \<and> (\<forall>r \<in> item_targets i. target_ok M h r))"

definition children_marked :: "object_model \<Rightarrow> gc_heap \<Rightarrow> address \<Rightarrow> bool" where
  "children_marked M h obj =
     (obj_IsMarked h (true_map h obj) \<and> (\<forall>i \<in> set (body M obj). item_ok M i h))"

definition is_gray :: "gc_heap \<Rightarrow> address \<Rightarrow> bool" where
  "is_gray h obj = (obj \<in> set (marking_stack h) \<or> obj_IsOverflowed h obj)"

text \<open>
  The invariant of the marking phase: a marked object is gray or black, unless it is
  one of \<open>X\<close>, the objects whose body is being visited or that the collector has marked
  without visiting their body (the symbol table).
\<close>

definition tricolour :: "object_model \<Rightarrow> address set \<Rightarrow> gc_heap \<Rightarrow> bool" where
  "tricolour M X h =
     (\<forall>a. obj_IsMarked h a \<longrightarrow> a \<in> X \<or> is_gray h a \<or> children_marked M h a)"

text \<open>
  During marking every first word is a map pointer with its two bits; only a marked
  object is overflowed; the objects on the marking stack are marked and not overflowed
  (the assertion of \<open>ProcessMarkingStack\<close> on the object that it pops); and the empty
  fixed array, a root, is marked before a code cache is flushed.
\<close>

definition marking_wf :: "object_model \<Rightarrow> gc_heap \<Rightarrow> bool" where
  "marking_wf M h =
     ((\<forall>a. is_map_pointer (map_word h a)) \<and>
      (\<forall>a. obj_IsOverflowed h a \<longrightarrow> obj_IsMarked h a) \<and>
      (\<forall>a \<in> set (marking_stack h). obj_IsMarked h a \<and> \<not> obj_IsOverflowed h a) \<and>
      (FLAG_cleanup_caches_in_maps_at_gc M \<longrightarrow> IsHeapObject (empty_fixed_array M) \<longrightarrow>
         obj_IsMarked h (address (empty_fixed_array M))))"

text \<open>An overflowed object of a space is announced by the flag of the marking stack.\<close>

definition no_hidden_gray :: "object_model \<Rightarrow> gc_heap \<Rightarrow> bool" where
  "no_hidden_gray M h =
     (overflowed h \<or> (\<forall>s. \<forall>obj \<in> set (objects_in M s). \<not> obj_IsOverflowed h obj))"

text \<open>
  What a piece of the marking code may do to the heap: it marks objects and never takes
  a mark, an overflow bit or a stack entry away; a slot or a target that it writes is in
  order afterwards; it sets an overflow bit only with the flag set; and an object that it
  has marked is gray or black afterwards, unless it is one of \<open>X\<close>.
\<close>

definition marking_step :: "object_model \<Rightarrow> address set \<Rightarrow> gc_heap \<Rightarrow> gc_heap \<Rightarrow> bool" where
  "marking_step M X h h' =
     (marking_wf M h' \<and>
      (\<forall>a. obj_IsMarked h a \<longrightarrow> obj_IsMarked h' a) \<and>
      (\<forall>a. true_map h' a = true_map h a) \<and>
      (\<forall>p. slot h' p = slot h p \<or> slot_ok h' p) \<and>
      (\<forall>r. target_address h' r = target_address h r \<or> target_ok M h' r) \<and>
      (overflowed h \<longrightarrow> overflowed h') \<and>
      (\<forall>a. obj_IsOverflowed h' a \<longrightarrow> obj_IsOverflowed h a \<or> overflowed h') \<and>
      (\<forall>a. obj_IsOverflowed h a \<longrightarrow> obj_IsOverflowed h' a) \<and>
      set (marking_stack h) \<subseteq> set (marking_stack h') \<and>
      (\<forall>a. obj_IsMarked h' a \<longrightarrow>
           obj_IsMarked h a \<or> a \<in> X \<or> is_gray h' a \<or> children_marked M h' a))"

text \<open>
  What the visitor expects of \<open>VisitUnmarkedObject\<close>, which it calls on unmarked objects
  only.
\<close>

definition visit_spec :: "object_model \<Rightarrow> (address \<Rightarrow> gc_heap \<Rightarrow> gc_heap option) \<Rightarrow> bool" where
  "visit_spec M visit =
     (\<forall>obj h h'. marking_wf M h \<longrightarrow> \<not> obj_IsMarked h obj \<longrightarrow> visit obj h = Some h' \<longrightarrow>
        marking_step M {} h h' \<and> obj_IsMarked h' obj)"

text \<open>
  What a rescan of the spaces may do to the heap: it changes no mark, no map, no slot
  and no target; it sets the overflow bit of no object; an object whose overflow bit it
  clears is on the marking stack afterwards; it takes nothing from the stack, and what
  it puts there are objects whose overflow bit it has cleared.
\<close>

definition rescan_step :: "gc_heap \<Rightarrow> gc_heap \<Rightarrow> bool" where
  "rescan_step h h' =
     ((\<forall>a. obj_IsMarked h' a = obj_IsMarked h a) \<and>
      (\<forall>a. true_map h' a = true_map h a) \<and>
      (\<forall>a. is_map_pointer (map_word h' a) = is_map_pointer (map_word h a)) \<and>
      slot h' = slot h \<and> target_address h' = target_address h \<and>
      (\<forall>a. obj_IsOverflowed h' a \<longrightarrow> obj_IsOverflowed h a) \<and>
      (\<forall>a. obj_IsOverflowed h a \<longrightarrow> obj_IsOverflowed h' a \<or> a \<in> set (marking_stack h')) \<and>
      set (marking_stack h) \<subseteq> set (marking_stack h') \<and>
      (\<forall>a \<in> set (marking_stack h').
         a \<in> set (marking_stack h) \<or> (obj_IsOverflowed h a \<and> \<not> obj_IsOverflowed h' a)))"

text \<open>
  The objects of the heap in the order in which a rescan comes to them, and the number of
  entries that the marking stack has room for.
\<close>

definition rescan_order :: "AllocationSpace list" where
  "rescan_order = [NEW_SPACE, OLD_SPACE, CODE_SPACE, MAP_SPACE, LO_SPACE]"

definition objects_in_rescan_order :: "object_model \<Rightarrow> address list" where
  "objects_in_rescan_order M = concat (map (objects_in M) rescan_order)"

definition room :: "object_model \<Rightarrow> gc_heap \<Rightarrow> nat" where
  "room M h = stack_capacity M - length (marking_stack h)"

subsection \<open>A heap whose pointers stay inside the spaces\<close>

text \<open>
  The objects of the heap are the objects that the iterators of the five spaces yield.
  \<open>MarkObjectByPointer\<close> takes an object for a cons string by the instance type that it
  reads through the map word with the mark cleared, which is the type of the map or, for
  an overflowed object, what is found at the address of the map with the overflow bit
  added.
\<close>

definition heap_objects :: "object_model \<Rightarrow> address set" where
  "heap_objects M = set (objects_in_rescan_order M)"

definition reads_as_cons_string :: "object_model \<Rightarrow> gc_heap \<Rightarrow> address \<Rightarrow> bool" where
  "reads_as_cons_string M h obj =
     (\<exists>type \<in> {instance_type M (true_map h obj), instance_type M (true_map h obj + kOverflowMask)}.
        type < FIRST_NONSTRING_TYPE M \<and>
        and type (kStringRepresentationMask M) = kConsStringTag M)"

text \<open>
  A heap is closed when only objects of the heap are marked and every pointer goes to an
  object of the heap: the map of an object, the heap objects in the slots, the empty
  fixed array if code caches are flushed, and the first part of whatever may be taken for
  a cons string. Relocation entries are admitted in a collection that neither compacts nor
  clears inline caches, where the visitor leaves their targets as they are; the targets are
  code objects of the heap.
\<close>

definition heap_closed :: "object_model \<Rightarrow> gc_heap \<Rightarrow> bool" where
  "heap_closed M h =
     ((\<forall>a. obj_IsMarked h a \<longrightarrow> a \<in> heap_objects M) \<and>
      (\<forall>a \<in> heap_objects M. true_map h a \<in> heap_objects M) \<and>
      (\<forall>p. IsHeapObject (slot h p) \<longrightarrow> address (slot h p) \<in> heap_objects M) \<and>
      (FLAG_cleanup_caches_in_maps_at_gc M \<longrightarrow>
         IsHeapObject (empty_fixed_array M) \<and> address (empty_fixed_array M) \<in> heap_objects M) \<and>
      (\<forall>a \<in> heap_objects M. reads_as_cons_string M h a \<longrightarrow>
         IsHeapObject (slot h (first_slot M a))) \<and>
      (\<forall>a \<in> heap_objects M. \<forall>i \<in> set (body M a). \<forall>r \<in> item_targets i.
         \<not> compacting M \<and> \<not> FLAG_cleanup_ics_at_gc M \<and>
         CodeFromDerivedPointer M (target_address h r) \<in> heap_objects M))"

text \<open>
  The work that marking has left: a white object is to be marked, put on the stack and
  taken from it; an overflowed object is to be put on the stack and taken from it; an
  entry of the stack is to be taken from it.
\<close>

definition rank :: "gc_heap \<Rightarrow> address \<Rightarrow> nat" where
  "rank h obj = (if \<not> obj_IsMarked h obj then 3 else if obj_IsOverflowed h obj then 2 else 0)"

definition weight :: "object_model \<Rightarrow> gc_heap \<Rightarrow> nat" where
  "weight M h = sum (rank h) (heap_objects M) + length (marking_stack h)"

definition whites :: "object_model \<Rightarrow> gc_heap \<Rightarrow> nat" where
  "whites M h = card {a \<in> heap_objects M. \<not> obj_IsMarked h a}"

text \<open>
  A piece of the marking code advances when it leaves the heap well-formed and closed,
  takes no mark away and adds no work. \<open>VisitUnmarkedObject\<close> is total when it returns on
  every white object of a closed heap with at most \<open>n\<close> white objects.
\<close>

definition advance :: "object_model \<Rightarrow> gc_heap \<Rightarrow> gc_heap \<Rightarrow> bool" where
  "advance M h h' =
     (marking_wf M h' \<and> heap_closed M h' \<and>
      (\<forall>a. obj_IsMarked h a \<longrightarrow> obj_IsMarked h' a) \<and>
      weight M h' \<le> weight M h)"

definition visit_total ::
  "object_model \<Rightarrow> nat \<Rightarrow> (address \<Rightarrow> gc_heap \<Rightarrow> gc_heap option) \<Rightarrow> bool" where
  "visit_total M n visit =
     (\<forall>obj h. marking_wf M h \<longrightarrow> heap_closed M h \<longrightarrow> whites M h \<le> n \<longrightarrow>
        obj \<in> heap_objects M \<longrightarrow> \<not> obj_IsMarked h obj \<longrightarrow>
        (\<exists>h'. visit obj h = Some h' \<and> advance M h h'))"

text \<open>
  An object refers to its map, to the heap objects in the slots of its body and to the
  code objects of its relocation entries. \<open>reaches\<close> follows these references from object
  to object, through no object of \<open>X\<close>.
\<close>

definition refers :: "object_model \<Rightarrow> gc_heap \<Rightarrow> address \<Rightarrow> address \<Rightarrow> bool" where
  "refers M h a b =
     (b = true_map h a \<or>
      (\<exists>i \<in> set (body M a).
         (\<exists>p \<in> item_slots i. slot h p = HeapObject b) \<or>
         (\<exists>r \<in> item_targets i. \<not> FLAG_cleanup_ics_at_gc M \<and> b = code_of M h r)))"

definition reaches :: "object_model \<Rightarrow> address set \<Rightarrow> gc_heap \<Rightarrow> address \<Rightarrow> address \<Rightarrow> bool" where
  "reaches M X h = rtranclp (\<lambda>a b. a \<notin> X \<and> refers M h a b)"
section \<open>Sample heaps\<close>

definition sample_geometry :: geometry where
  "sample_geometry = \<lparr>kPageSize = 8192, kObjectStartOffset = 256,
     FromSpaceLow = 1048576, ToSpaceLow = 2097152,
     new_space_Contains = (\<lambda>a. 2097152 \<le> a \<and> a < 3145728),
     lo_space_Contains = (\<lambda>a. 4194304 \<le> a)\<rparr>"

definition blank_heap :: heap where
  "blank_heap = \<lparr>slot = (\<lambda>a. Smi 0), map_word = (\<lambda>a. MapPointer 0 False False),
     Memory = (\<lambda>a. 0),
     page = (\<lambda>a. \<lparr>mc_first_forwarded = 0, mc_relocation_top = 0, next_page = 0\<rparr>)\<rparr>"

text \<open>
  Two pages of a paged space, at 8192 and 16384. The live objects of the second page are
  forwarded to the end of the first page, whose relocation top is at offset 8100; the
  object at 17384 is 200 live bytes after the first live object of its page.
\<close>

definition two_page_heap :: heap where
  "two_page_heap = blank_heap
     \<lparr>map_word := (map_word blank_heap)(17384 := EncodeAddress 40000 200),
      page := (page blank_heap)
        (8192 := \<lparr>mc_first_forwarded = 8448, mc_relocation_top = 16292, next_page = 16384\<rparr>,
         16384 := \<lparr>mc_first_forwarded = 16192, mc_relocation_top = 16740, next_page = 0\<rparr>)\<rparr>"

text \<open>
  A callback for objects of twenty bytes that leaves the address of the object it was
  given in the memory cell 0.
\<close>

definition visited_size_func :: "address \<Rightarrow> heap \<Rightarrow> int \<times> heap" where
  "visited_size_func a h = (20, Memory_store 0 a h)"

text \<open>
  A root slot with a small integer, and one with a pointer to the new-space object at
  offset 16 of the active semispace, whose forwarding address 8448 is at offset 16 of
  the inactive semispace.
\<close>

definition smi_slot_heap :: heap where
  "smi_slot_heap =
     blank_heap\<lparr>slot := (slot blank_heap)(100 := Smi 7, 104 := HeapObject 2097168),
                Memory := (Memory blank_heap)(1048592 := 8448)\<rparr>"

text \<open>
  Bump allocation in three spaces of which the old space is full: every space is an
  allocation top and a limit.
\<close>

definition bump_allocate ::
  "AllocationSpace \<Rightarrow> int \<Rightarrow> (AllocationSpace \<Rightarrow> int \<times> int) \<Rightarrow>
   Object \<times> (AllocationSpace \<Rightarrow> int \<times> int)" where
  "bump_allocate space n s =
     (if fst (s space) + n \<le> snd (s space)
      then (HeapObject (fst (s space)), s(space := (fst (s space) + n, snd (s space))))
      else (Failure, s))"

definition full_old_space :: "(AllocationSpace \<Rightarrow> int \<times> int) allocation" where
  "full_old_space =
     \<lparr>spaces = (\<lambda>sp. if sp = OLD_SPACE then (8448, 8456)
                      else if sp = CODE_SPACE then (16640, 24576)
                      else (1048576, 2097152)),
      requests = []\<rparr>"

subsection \<open>A heap with strings\<close>

text \<open>
  Three maps: the map at 100 of cons strings, the map at 104 of sequential strings and
  the map at 108 of maps. Addresses from 2000 on are in the new space. A cons string has
  its first part in the slot after its address and its second part in the next slot. The
  marking stack has room for two objects, and the stack-limit check never fails.
\<close>

definition string_model :: object_model where
  "string_model =
     \<lparr>compacting = False, FLAG_cleanup_ics_at_gc = True,
      FLAG_cleanup_caches_in_maps_at_gc = True,
      instance_type = (\<lambda>m. if m = 100 then 1 else if m = 104 then 0 else 129),
      FIRST_NONSTRING_TYPE = 128, kStringRepresentationMask = 3, kConsStringTag = 1,
      MAP_TYPE = 129, JS_GLOBAL_OBJECT_TYPE = 140,
      first_slot = (\<lambda>a. a + 1), second_slot = (\<lambda>a. a + 2), code_cache_slot = (\<lambda>a. a + 3),
      empty_string = HeapObject 1200, empty_fixed_array = HeapObject 1300,
      InNewSpace = (\<lambda>x. case x of HeapObject a \<Rightarrow> 2000 \<le> a | _ \<Rightarrow> False),
      body = (\<lambda>a. if a = 1000 \<or> a = 1400 then [Pointers (a + 1) (a + 3)] else []),
      Code_kHeaderSize = 32, is_inline_cache_stub = (\<lambda>a. False), IC_Clear = (\<lambda>r t. t),
      stack_capacity = 2, HasOverflowed = (\<lambda>d. False),
      objects_in = (\<lambda>s. if s = OLD_SPACE then [1000, 1100, 1200, 1300, 1400]
                          else if s = NEW_SPACE then [2100]
                          else if s = MAP_SPACE then [100, 104, 108] else [])\<rparr>"

definition blank_gc_heap :: gc_heap where
  "blank_gc_heap =
     \<lparr>slot = (\<lambda>a. Smi 0), map_word = (\<lambda>a. MapPointer 108 False False),
      Memory = (\<lambda>a. 0),
      page = (\<lambda>a. \<lparr>mc_first_forwarded = 0, mc_relocation_top = 0, next_page = 0\<rparr>),
      gc_tracer = \<lparr>marked_count = 0, is_compacting = False\<rparr>,
      marking_stack = [], overflowed = False, global_objects = 0,
      target_address = (\<lambda>r. 0), ic_flag = (\<lambda>a. False)\<rparr>"

text \<open>
  The root slot 10 holds the cons string at 1000, whose second part is the empty string
  at 1200 and whose first part is the sequential string at 1100, in the old space; the
  cons string at 1400 is the same with its first part at 2100, in the new space, and the
  root slot 11 holds it.
\<close>

definition cons_string_heap :: gc_heap where
  "cons_string_heap = blank_gc_heap
     \<lparr>slot := (slot blank_gc_heap)
        (10 := HeapObject 1000, 11 := HeapObject 1400,
         1001 := HeapObject 1100, 1002 := HeapObject 1200,
         1401 := HeapObject 2100, 1402 := HeapObject 1200),
      map_word := (map_word blank_gc_heap)
        (1000 := MapPointer 100 False False, 1400 := MapPointer 100 False False,
         1100 := MapPointer 104 False False, 2100 := MapPointer 104 False False,
         1200 := MapPointer 104 False False)\<rparr>"

subsection \<open>A heap to compact\<close>

text \<open>
  \<^verbatim>\<open>memmove\<close> for the sample: the cells of the three stores at the \<open>n\<close> addresses from
  \<open>src\<close> on are copied to the addresses from \<open>dst\<close> on.
\<close>

definition move_cells :: "address \<Rightarrow> address \<Rightarrow> int \<Rightarrow> heap \<Rightarrow> heap" where
  "move_cells dst src n h =
     h\<lparr>slot := (\<lambda>a. if dst \<le> a \<and> a < dst + n then slot h (a - dst + src) else slot h a),
       map_word := (\<lambda>a. if dst \<le> a \<and> a < dst + n then map_word h (a - dst + src)
                         else map_word h a),
       Memory := (\<lambda>a. if dst \<le> a \<and> a < dst + n then Memory h (a - dst + src)
                       else Memory h a)\<rparr>"

text \<open>
  One page in use in each paged space: the old space at 8192 with three objects of 16
  bytes, the code space at 16384 without objects, the map space at 24576 with two maps.
  The active semispace holds one object. Allocation in a space moves its top; the
  relocation top of the page of a space is that top.
\<close>

definition compact_spaces :: "(AllocationSpace \<Rightarrow> int \<times> int) space_model" where
  "compact_spaces =
     \<lparr>geo = sample_geometry, SizeFromMap = (\<lambda>obj m. 16), CODE_TYPE = 131, Map_kSize = 16,
      PAGES_IN_USE = (\<lambda>s. if s = OLD_SPACE then [8192] else if s = CODE_SPACE then [16384]
                            else if s = MAP_SPACE then [24576] else []),
      AllocationTop = (\<lambda>p. if p = 8192 then 8496 else if p = 16384 then 16640
                             else if p = 24576 then 24864 else p),
      new_space_bottom = (\<lambda>s. 2097152), new_space_top = (\<lambda>s. 2097168),
      raw_allocate = bump_allocate, kind_of = (\<lambda>a. OtherObject),
      MCResetRelocationInfo = (\<lambda>s. s),
      MCWriteRelocationInfoToPage =
        (\<lambda>sp s pg a. if (sp = OLD_SPACE \<and> a = 8192) \<or> (sp = CODE_SPACE \<and> a = 16384) \<or>
                          (sp = MAP_SPACE \<and> a = 24576)
                       then (pg a)\<lparr>mc_relocation_top := fst (s sp)\<rparr> else pg a),
      MCAdjustRelocationEnd = (\<lambda>sp a n s. s), MCCommitRelocationInfo = (\<lambda>sp s. s),
      Flip = (\<lambda>s. s), set_age_mark = (\<lambda>a s. s),
      memmove = move_cells, memcpy = move_cells,
      Code_Relocate = (\<lambda>a d h. h), ConvertICTargetsFromObjectToAddress = (\<lambda>a h. h),
      lo_objects = [], FromSpaceContains = (\<lambda>a. 1048576 \<le> a \<and> a < 2097152)\<rparr>"

text \<open>
  After marking: the objects at 8448 and 8480 of the old space, the object at 2097152 of
  the new space and the two maps are marked, the object at 8464 is not.
\<close>

definition marked_heap :: "(AllocationSpace \<Rightarrow> int \<times> int) mc_heap" where
  "marked_heap =
     \<lparr>slot = (\<lambda>a. Smi 0),
      map_word = (\<lambda>a. if a = 8448 \<or> a = 8480 \<or> a = 2097152 then MapPointer 24848 True False
                       else if a = 8464 then MapPointer 24848 False False
                       else MapPointer 24832 True False),
      Memory = (\<lambda>a. 0),
      page = (\<lambda>a. \<lparr>mc_first_forwarded = 0, mc_relocation_top = 0, next_page = 0\<rparr>),
      gc_tracer = \<lparr>marked_count = 5, is_compacting = True\<rparr>,
      marking_stack = [], overflowed = False, global_objects = 0,
      target_address = (\<lambda>r. 0), ic_flag = (\<lambda>a. False),
      alloc = \<lparr>spaces = (\<lambda>sp. if sp = OLD_SPACE then (8448, 16384)
                                else if sp = CODE_SPACE then (16640, 24576)
                                else if sp = MAP_SPACE then (24832, 32768)
                                else (1048576, 2097152)),
               requests = []\<rparr>,
      events = []\<rparr>"

text \<open>
  The same heap after the encoding phase: live objects of the paged spaces carry their
  encoded forwarding address, the dead object at 8464 is a free region of 16 bytes, and
  the forwarding address of the new-space object is in the from space.
\<close>

definition encoded_heap :: "(AllocationSpace \<Rightarrow> int \<times> int) mc_heap" where
  "encoded_heap =
     \<lparr>slot = (\<lambda>a. Smi 0),
      map_word = (\<lambda>a. if a = 8448 then EncodeAddress 24848 0
                       else if a = 8464 then FreeRegionWord 1
                       else if a = 8480 then EncodeAddress 24848 16
                       else if a = 2097152 then MapPointer 24848 False False
                       else if a = 24832 then EncodeAddress 24832 0
                       else if a = 24848 then EncodeAddress 24832 16
                       else MapPointer 24832 True False),
      Memory = (\<lambda>a. if a = 8468 then 16 else if a = 1048576 then 8480 else 0),
      page = (\<lambda>a. if a = 8192
                   then \<lparr>mc_first_forwarded = 8448, mc_relocation_top = 8496, next_page = 0\<rparr>
                   else if a = 16384
                   then \<lparr>mc_first_forwarded = 0, mc_relocation_top = 16640, next_page = 0\<rparr>
                   else if a = 24576
                   then \<lparr>mc_first_forwarded = 24832, mc_relocation_top = 24864, next_page = 0\<rparr>
                   else \<lparr>mc_first_forwarded = 0, mc_relocation_top = 0, next_page = 0\<rparr>),
      gc_tracer = \<lparr>marked_count = 0, is_compacting = True\<rparr>,
      marking_stack = [], overflowed = False, global_objects = 0,
      target_address = (\<lambda>r. 0), ic_flag = (\<lambda>a. False),
      alloc = \<lparr>spaces = (\<lambda>sp. if sp = OLD_SPACE then (8496, 16384)
                                else if sp = CODE_SPACE then (16640, 24576)
                                else if sp = MAP_SPACE then (24864, 32768)
                                else (1048576, 2097152)),
               requests = [(OLD_SPACE, 16), (OLD_SPACE, 16), (OLD_SPACE, 16),
                           (MAP_SPACE, 16), (MAP_SPACE, 16)]\<rparr>,
      events = [Encoding OLD_SPACE, Encoding CODE_SPACE, Encoding NEW_SPACE,
                Encoding MAP_SPACE]\<rparr>"


subsection \<open>A heap that overflows the marking stack\<close>

text \<open>
  A marking stack of one entry. The object at 1000 refers to the objects at 1100, 1200
  and 1300 through the slots 1001 to 1003, the object at 1100 refers to the object at 1400
  through slot 1101. The five objects are in the old space; 112 is their map and 108 the
  map of the maps, in the map space.
\<close>

definition overflow_model :: object_model where
  "overflow_model =
     \<lparr>compacting = False, FLAG_cleanup_ics_at_gc = False,
      FLAG_cleanup_caches_in_maps_at_gc = False,
      instance_type = (\<lambda>m. if m = 112 then 130 else 129),
      FIRST_NONSTRING_TYPE = 128, kStringRepresentationMask = 3, kConsStringTag = 1,
      MAP_TYPE = 129, JS_GLOBAL_OBJECT_TYPE = 140,
      first_slot = (\<lambda>a. a + 1), second_slot = (\<lambda>a. a + 2), code_cache_slot = (\<lambda>a. a + 3),
      empty_string = HeapObject 1200, empty_fixed_array = HeapObject 1300,
      InNewSpace = (\<lambda>x. False),
      body = (\<lambda>a. if a = 1000 then [Pointers 1001 1004]
                     else if a = 1100 then [Pointer 1101] else []),
      Code_kHeaderSize = 32, is_inline_cache_stub = (\<lambda>a. False), IC_Clear = (\<lambda>r t. t),
      stack_capacity = 1, HasOverflowed = (\<lambda>d. False),
      objects_in = (\<lambda>s. if s = OLD_SPACE then [1000, 1100, 1200, 1300, 1400]
                          else if s = MAP_SPACE then [108, 112] else [])\<rparr>"

text \<open>The object at 1000 is marked and on the marking stack, no other object is marked.\<close>

definition gray_root_heap :: gc_heap where
  "gray_root_heap =
     \<lparr>slot = (\<lambda>p. if p = 1001 then HeapObject 1100 else if p = 1002 then HeapObject 1200
                     else if p = 1003 then HeapObject 1300
                     else if p = 1101 then HeapObject 1400 else Smi 0),
      map_word = (\<lambda>a. if a = 1000 then MapPointer 112 True False
                       else if a = 108 \<or> a = 112 then MapPointer 108 False False
                       else MapPointer 112 False False),
      Memory = (\<lambda>a. 0),
      page = (\<lambda>a. \<lparr>mc_first_forwarded = 0, mc_relocation_top = 0, next_page = 0\<rparr>),
      gc_tracer = \<lparr>marked_count = 1, is_compacting = False\<rparr>,
      marking_stack = [1000], overflowed = False, global_objects = 0,
      target_address = (\<lambda>r. 0), ic_flag = (\<lambda>a. False)\<rparr>"

text \<open>
  The same heap with the object at 1000 taken from the stack and the three objects that
  it refers to marked while the stack was full.
\<close>

definition overflowed_heap :: gc_heap where
  "overflowed_heap = gray_root_heap
     \<lparr>map_word := (map_word gray_root_heap)
        (1100 := MapPointer 112 True True, 1200 := MapPointer 112 True True,
         1300 := MapPointer 112 True True),
      marking_stack := [], overflowed := True\<rparr>"
section \<open>Properties\<close>

subsection \<open>Prepare\<close>

lemma int32_id: "- 2147483648 \<le> x \<Longrightarrow> x \<le> 2147483647 \<Longrightarrow> int32 x = x"
  by (simp add: int32_def)

lemma sdiv_nonneg: "0 \<le> a \<Longrightarrow> 0 \<le> b \<Longrightarrow> a sdiv b = a div (b::int)"
  by (cases "a = 0"; cases "b = 0"; simp add: signed_divide_int_def)

text \<open>What \<open>Prepare\<close> decides, in terms of the 32-bit quantity it computes.\<close>

lemma Prepare_compacting:
  "Prepare R c = Inr c' \<Longrightarrow>
   compacting_collection c' =
     (\<not> FLAG_never_compact R \<and>
      (FLAG_always_compact R \<or> kFragmentationLimit < old_gen_fragmentation R (heap c)))"
  by (auto simp: Prepare_def Let_def on_heap_def split: if_splits option.splits)

lemma Prepare_returns:
  "FLAG_always_compact R \<or>
   division_traps (int32 (old_gen_recoverable R (heap c) * 100)) (old_gen_used R (heap c)) = None \<Longrightarrow>
   \<exists>c'. Prepare R c = Inr c'"
  by (auto simp: Prepare_def Let_def on_heap_def)

lemma Prepare_fails:
  "Prepare R c = Inl e \<Longrightarrow>
     \<not> FLAG_always_compact R \<and>
     division_traps (int32 (old_gen_recoverable R (heap c) * 100)) (old_gen_used R (heap c)) = Some e"
  by (auto simp: Prepare_def Let_def on_heap_def split: if_splits option.splits)

lemma Prepare_heap:
  "Prepare R c = Inr c' \<Longrightarrow>
   heap c' = global_objects_Set R 0
     (PrepareForMarkCompact R CODE_SPACE (compacting_collection c')
       (PrepareForMarkCompact R OLD_SPACE (compacting_collection c')
         (PrepareForMarkCompact R MAP_SPACE (compacting_collection c') (heap c)))) \<and>
   tracer c' = tracer c \<and> previous_marked_count c' = previous_marked_count c"
  by (auto simp: Prepare_def Let_def on_heap_def split: if_splits option.splits)

text \<open>
  As long as one hundred times the recoverable bytes fit a 32-bit \<^verbatim>\<open>int\<close>, the quantity
  that \<open>Prepare\<close> computes is the percentage of the specification.
\<close>

lemma fragmentation_in_range:
  assumes "0 \<le> Waste R OLD_SPACE h" "0 \<le> AvailableFree R OLD_SPACE h"
    "0 \<le> Waste R CODE_SPACE h" "0 \<le> AvailableFree R CODE_SPACE h"
    "0 \<le> Size R OLD_SPACE h" "0 \<le> Size R CODE_SPACE h"
    "(Waste R OLD_SPACE h + AvailableFree R OLD_SPACE h
      + Waste R CODE_SPACE h + AvailableFree R CODE_SPACE h) * 100 \<le> INT_MAX"
    "Waste R OLD_SPACE h + AvailableFree R OLD_SPACE h
      + Waste R CODE_SPACE h + AvailableFree R CODE_SPACE h
      + Size R OLD_SPACE h + Size R CODE_SPACE h \<le> INT_MAX"
  shows "old_gen_fragmentation R h = fragmentation_percent R h"
proof -
  define r where "r = Waste R OLD_SPACE h + AvailableFree R OLD_SPACE h
      + Waste R CODE_SPACE h + AvailableFree R CODE_SPACE h"
  define u where "u = r + Size R OLD_SPACE h + Size R CODE_SPACE h"
  have r0: "0 \<le> r" and r100: "r * 100 \<le> 2147483647"
    and u0: "0 \<le> u" and umax: "u \<le> 2147483647"
    using assms by (simp_all add: r_def u_def INT_MAX_def)
  have rec: "old_gen_recoverable R h = r"
    using assms r100 unfolding old_gen_recoverable_def r_def INT_MAX_def
    by (simp add: int32_id)
  have used: "old_gen_used R h = u"
    using assms r0 umax unfolding old_gen_used_def rec u_def
    by (simp add: int32_id)
  have q0: "0 \<le> (r * 100) div u"
    using r0 u0 by (simp add: div_int_pos_iff)
  have "(r * 100) div u \<le> r * 100"
    using r0 int_div_le_self [of "r * 100" u] by (cases "r = 0") simp_all
  then have q1: "(r * 100) div u \<le> 2147483647"
    using r100 by linarith
  have "old_gen_fragmentation R h = int32 ((r * 100) sdiv u)"
    using r0 r100 unfolding old_gen_fragmentation_def rec used by (simp add: int32_id)
  also have "(r * 100) sdiv u = (r * 100) div u"
    using r0 u0 by (simp add: sdiv_nonneg)
  also have "int32 ((r * 100) div u) = (r * 100) div u"
    using q0 q1 by (simp add: int32_id)
  finally show ?thesis
    by (simp add: fragmentation_percent_def Let_def r_def u_def)
qed

lemma Prepare_decision_in_range:
  assumes "0 \<le> Waste R OLD_SPACE (heap c)" "0 \<le> AvailableFree R OLD_SPACE (heap c)"
    "0 \<le> Waste R CODE_SPACE (heap c)" "0 \<le> AvailableFree R CODE_SPACE (heap c)"
    "0 \<le> Size R OLD_SPACE (heap c)" "0 \<le> Size R CODE_SPACE (heap c)"
    "(Waste R OLD_SPACE (heap c) + AvailableFree R OLD_SPACE (heap c)
      + Waste R CODE_SPACE (heap c) + AvailableFree R CODE_SPACE (heap c)) * 100 \<le> INT_MAX"
    "Waste R OLD_SPACE (heap c) + AvailableFree R OLD_SPACE (heap c)
      + Waste R CODE_SPACE (heap c) + AvailableFree R CODE_SPACE (heap c)
      + Size R OLD_SPACE (heap c) + Size R CODE_SPACE (heap c) \<le> INT_MAX"
    "Prepare R c = Inr c'"
  shows "compacting_collection c' = spec_compacting R (heap c)"
  using Prepare_compacting [OF assms(9)] fragmentation_in_range [OF assms(1-8)]
  by (simp add: spec_compacting_def kFragmentationLimit_def)

lemma Prepare_decision_small_heap:
  "spec_compacting small_fragmented_heap () \<and>
   (\<exists>c. Prepare small_fragmented_heap idle_collector = Inr c \<and> compacting_collection c)"
  by (simp add: Prepare_def small_fragmented_heap_def accounting_runtime_def idle_collector_def
      Let_def on_heap_def old_gen_used_def old_gen_recoverable_def
      old_gen_fragmentation_def int32_def kFragmentationLimit_def signed_divide_int_def
      spec_compacting_def fragmentation_percent_def division_traps_def INT_MIN_def)

text \<open>
  Claim C6: \<open>Prepare\<close> decides to compact if and only if \<^verbatim>\<open>never_compact\<close> is unset and
  either \<^verbatim>\<open>always_compact\<close> is set or the fragmentation of the old generation, as a
  percentage, exceeds 50.

  The code takes the product \<^verbatim>\<open>old_gen_recoverable * 100\<close> in a 32-bit \<^verbatim>\<open>int\<close>. With
  30,000,000 recoverable bytes out of 42,000,000 the fragmentation is 71 percent, and the
  specification compacts; the product wraps to a negative number, \<open>Prepare\<close> computes
  \<open>-30\<close> and does not compact.
\<close>

theorem Prepare_fragmentation_overflow:
  "fragmentation_percent fragmented_heap () = 71 \<and>
   spec_compacting fragmented_heap () \<and>
   old_gen_fragmentation fragmented_heap () = - 30 \<and>
   (\<exists>c. Prepare fragmented_heap idle_collector = Inr c \<and> \<not> compacting_collection c)"
  by (simp add: Prepare_def fragmented_heap_def accounting_runtime_def idle_collector_def Let_def
      on_heap_def old_gen_used_def old_gen_recoverable_def old_gen_fragmentation_def
      int32_def kFragmentationLimit_def signed_divide_int_def spec_compacting_def
      fragmentation_percent_def division_traps_def INT_MIN_def)

subsection \<open>CollectGarbage\<close>

text \<open>
  Claim C1: \<open>CollectGarbage\<close> runs the phases in the order \<open>Prepare\<close>,
  \<open>MarkLiveObjects\<close>, \<open>SweepLargeObjectSpace\<close>, then, exactly when the decision that
  \<open>Prepare\<close> made is to compact, \<open>EncodeForwardingAddresses\<close>, \<open>UpdatePointers\<close>,
  \<open>RelocateObjects\<close>, \<open>RebuildRSets\<close>, and otherwise \<open>SweepSpaces\<close>, and at last
  \<open>Finish\<close>; no phase is left out, repeated or moved.

  The heap and the tracer that \<open>CollectGarbage\<close> returns are those that the work of
  the phases gives when it is done once each in this order, every phase on what the phase
  before it has left: \<open>Prepare\<close> on the heap of the caller, marking on the heap of
  \<open>Prepare\<close> and on the caller's tracer (told of the compaction first), and so on to the
  clearing of the stub cache. The only run that does not get through the phases is the one
  where the division in \<open>Prepare\<close> traps, and it returns nothing.
\<close>

theorem CollectGarbage_phase_order:
  "case Prepare R (c\<lparr>tracer := Some t\<rparr>) of
     Inl e \<Rightarrow> CollectGarbage R t c = Inl e
   | Inr p \<Rightarrow>
       (let compact = compacting_collection p;
            prepared = global_objects_Set R 0
              (PrepareForMarkCompact R CODE_SPACE compact
                (PrepareForMarkCompact R OLD_SPACE compact
                  (PrepareForMarkCompact R MAP_SPACE compact (heap c))));
            marked = mark_live_objects R compact
              (if compact then set_is_compacting t else t, prepared);
            swept = FreeUnmarkedObjects R marked;
            collected =
              (if compact
               then (let encoded = encode_forwarding_addresses R swept
                     in (fst encoded,
                         Heap_RebuildRSets R
                           (relocate_objects R (update_pointers R (snd encoded)))))
               else sweep_spaces R swept)
        in CollectGarbage R t c =
             Inr (fst collected,
                  c\<lparr>compacting_collection := compact,
                    previous_marked_count := marked_count (fst collected),
                    tracer := None,
                    heap := StubCache_Clear R (snd collected)\<rparr>))"
proof (cases "Prepare R (c\<lparr>tracer := Some t\<rparr>)")
  case (Inl e)
  then show ?thesis by (simp add: CollectGarbage_def)
next
  case (Inr p)
  note h = Prepare_heap [OF Inr]
  obtain b n tr g where c: "c = \<lparr>compacting_collection = b, previous_marked_count = n,
      tracer = tr, heap = g\<rparr>"
    by (cases c) simp
  obtain b' n' tr' g' where p: "p = \<lparr>compacting_collection = b', previous_marked_count = n',
      tracer = tr', heap = g'\<rparr>"
    by (cases p) simp
  have f: "n' = n" "tr' = Some t"
    "g' = global_objects_Set R 0
       (PrepareForMarkCompact R CODE_SPACE b'
         (PrepareForMarkCompact R OLD_SPACE b'
           (PrepareForMarkCompact R MAP_SPACE b' g)))"
    using h unfolding c p by simp_all
  show ?thesis
    unfolding Inr CollectGarbage_def
    by (cases b')
       (simp_all add: p c f Let_def IsCompacting_def MarkLiveObjects_def
         SweepLargeObjectSpace_def EncodeForwardingAddresses_def UpdatePointers_def
         RelocateObjects_def RebuildRSets_def SweepSpaces_def Finish_def on_tracer_heap_def
         on_heap_def case_prod_beta)
qed

text \<open>
  With a runtime that records every call in the heap, the caller finds the calls of a
  compacting and of a sweeping collection in the heap that comes back.
\<close>

theorem CollectGarbage_phase_order_witness:
  "CollectGarbage (recording_runtime True) fresh_tracer recording_collector =
     Inr (\<lparr>marked_count = 0, is_compacting = True\<rparr>,
          \<lparr>compacting_collection = True, previous_marked_count = 0, tracer = None,
           heap = [Called_PrepareForMarkCompact MAP_SPACE True,
                   Called_PrepareForMarkCompact OLD_SPACE True,
                   Called_PrepareForMarkCompact CODE_SPACE True,
                   Called_global_objects_Set 0, Called_mark_live_objects True,
                   Called_FreeUnmarkedObjects, Called_encode_forwarding_addresses,
                   Called_update_pointers, Called_relocate_objects, Called_RebuildRSets,
                   Called_StubCache_Clear]\<rparr>) \<and>
   CollectGarbage (recording_runtime False) fresh_tracer recording_collector =
     Inr (\<lparr>marked_count = 0, is_compacting = False\<rparr>,
          \<lparr>compacting_collection = False, previous_marked_count = 0, tracer = None,
           heap = [Called_PrepareForMarkCompact MAP_SPACE False,
                   Called_PrepareForMarkCompact OLD_SPACE False,
                   Called_PrepareForMarkCompact CODE_SPACE False,
                   Called_global_objects_Set 0, Called_mark_live_objects False,
                   Called_FreeUnmarkedObjects, Called_sweep_spaces,
                   Called_StubCache_Clear]\<rparr>)"
proof -
  have p: "Prepare (recording_runtime b) (recording_collector\<lparr>tracer := Some fresh_tracer\<rparr>) =
      Inr \<lparr>compacting_collection = b, previous_marked_count = 7, tracer = Some fresh_tracer,
           heap = [Called_PrepareForMarkCompact MAP_SPACE b,
                   Called_PrepareForMarkCompact OLD_SPACE b,
                   Called_PrepareForMarkCompact CODE_SPACE b,
                   Called_global_objects_Set 0]\<rparr>" for b
    by (simp add: Prepare_def recording_runtime_def recording_collector_def Let_def on_heap_def
        old_gen_used_def old_gen_recoverable_def old_gen_fragmentation_def int32_def
        kFragmentationLimit_def signed_divide_int_def division_traps_def INT_MIN_def)
  show ?thesis
    using CollectGarbage_phase_order [of "recording_runtime True" fresh_tracer recording_collector]
      CollectGarbage_phase_order [of "recording_runtime False" fresh_tracer recording_collector]
    unfolding p
    by (simp add: recording_runtime_def recording_collector_def fresh_tracer_def Let_def
        set_is_compacting_def increment_marked_count_def decrement_marked_count_def)
qed
subsection \<open>Forwarding addresses in the paged spaces\<close>

text \<open>
  Claim C2: for an object of a compacted paged space, \<open>GetForwardingAddressInOldSpace\<close>
  takes the offset from the object's forwarding map word and \<open>mc_first_forwarded\<close> from
  the object's page. It returns \<open>first_forwarded + offset\<close> when that address is below
  the \<open>mc_relocation_top\<close> of the page of \<open>first_forwarded\<close>; otherwise it returns the
  start of the object area of the next page plus the remainder, the offset less the bytes
  that fit into the first page, and that address is not below the start of the object area
  of the next page.
\<close>

theorem GetForwardingAddressInOldSpace_wrap:
  assumes "map_word h obj = EncodeAddress map_addr offset"
  shows "let first_forwarded = mc_first_forwarded (page h (Page_FromAddress G obj));
             forwarded_page = Page_FromAddress G first_forwarded;
             mc_top = mc_relocation_top (page h forwarded_page);
             next = next_page (page h forwarded_page)
         in GetForwardingAddressInOldSpace G h obj =
              (if first_forwarded + offset < mc_top then first_forwarded + offset
               else ObjectAreaStart G next + (offset - (mc_top - first_forwarded))) \<and>
            (\<not> first_forwarded + offset < mc_top \<longrightarrow>
               ObjectAreaStart G next \<le> GetForwardingAddressInOldSpace G h obj)"
  using assms
  by (auto simp: GetForwardingAddressInOldSpace_def Let_def Page_Offset_def
      Page_OffsetToAddress_def ObjectAreaStart_def)

theorem GetForwardingAddressInOldSpace_wrap_witness:
  "map_word two_page_heap 17384 = EncodeAddress 40000 200 \<and>
   GetForwardingAddressInOldSpace sample_geometry two_page_heap 17384 = 16740 \<and>
   ObjectAreaStart sample_geometry 16384
     \<le> GetForwardingAddressInOldSpace sample_geometry two_page_heap 17384"
  using GetForwardingAddressInOldSpace_wrap [of two_page_heap 17384 40000 200 sample_geometry]
  by (simp add: two_page_heap_def blank_heap_def sample_geometry_def Page_FromAddress_def
      ObjectAreaStart_def Page_OffsetToAddress_def Let_def)

subsection \<open>Free regions\<close>

lemma uint32_at_is_store [simp]:
  "uint32_at_is (uint32_store a v h) b k = (if b = a then v = k else uint32_at_is h b k)"
  "uint32_at_is (Memory_store a v h) b k = uint32_at_is h b k"
  by (simp_all add: uint32_at_is_def uint32_store_def Memory_store_def)

lemma int_at_uint32_store [simp]: "int_at (uint32_store a v h) b = int_at h b"
  by (simp add: int_at_def uint32_store_def)

lemma int_at_store [simp]:
  "int_at (Memory_store a v h) b = (if b = a then int32 v else int_at h b)"
  by (simp add: int_at_def Memory_store_def)

lemma live_objects_loop_done:
  "\<not> current < end' \<Longrightarrow>
   live_objects_loop size_func end' current live_objects h = Some (live_objects, h)"
  by (subst live_objects_loop.simps) simp

text \<open>
  Claim C5: \<open>EncodeFreeRegion\<close> writes the constant 0 into the only word of a free region
  of one word, and otherwise the constant 1 into the first word and the size \<open>s\<close> of the
  region into the second, and nothing else. The walk of \<open>IterateLiveObjectsInRange\<close>
  that comes to the start of the region goes on \<open>s\<close> bytes further, one word for a region
  of one word: if the range ends there, it returns with the count of live objects and the heap
  as they were, and if an object follows there, that object is the next one that the
  callback gets, and the walk goes on behind it with one more live object.
\<close>

theorem free_region_round_trip:
  assumes "kIntSize \<le> s" and "s \<le> INT_MAX" and "free_start < end'"
  shows "let h' = EncodeFreeRegion free_start s h;
             next = free_start + s
         in h' = (if s = kIntSize
                  then h\<lparr>map_word := (map_word h)(free_start := FreeRegionWord kSingleFreeEncoding)\<rparr>
                  else h\<lparr>map_word := (map_word h)(free_start := FreeRegionWord kMultiFreeEncoding),
                         Memory := (Memory h)(free_start + kIntSize := s)\<rparr>) \<and>
            (s = kIntSize \<longrightarrow> s = kPointerSize) \<and>
            (s \<noteq> kIntSize \<longrightarrow> int_at h' (free_start + kIntSize) = s) \<and>
            (end' \<le> next \<longrightarrow>
               live_objects_loop size_func end' free_start n h' = Some (n, h')) \<and>
            (next < end' \<and> \<not> uint32_at_is h next kSingleFreeEncoding \<and>
             \<not> uint32_at_is h next kMultiFreeEncoding \<longrightarrow>
               live_objects_loop size_func end' free_start n h' =
                 live_objects_loop size_func end' (next + fst (size_func next h')) (n + 1)
                   (snd (size_func next h')))"
proof -
  let ?h = "EncodeFreeRegion free_start s h"
  let ?next = "free_start + s"
  have r: "int32 s = s"
    using assms(1,2) by (simp add: int32_def INT_MAX_def kIntSize_def)
  have a: "?h = (if s = kIntSize
                  then h\<lparr>map_word := (map_word h)(free_start := FreeRegionWord kSingleFreeEncoding)\<rparr>
                  else h\<lparr>map_word := (map_word h)(free_start := FreeRegionWord kMultiFreeEncoding),
                         Memory := (Memory h)(free_start + kIntSize := s)\<rparr>)"
    by (simp add: EncodeFreeRegion_def uint32_store_def Memory_store_def)
  have b: "s \<noteq> kIntSize \<Longrightarrow> int_at ?h (free_start + kIntSize) = s"
    using r by (simp add: EncodeFreeRegion_def)
  have w: "uint32_at_is ?h free_start (if s = kIntSize then kSingleFreeEncoding else kMultiFreeEncoding)"
    by (simp add: EncodeFreeRegion_def)
  have step: "live_objects_loop size_func end' free_start n ?h =
      live_objects_loop size_func end' ?next n ?h"
  proof (cases "s = kIntSize")
    case True
    then show ?thesis
      using assms(3) w
      by (subst live_objects_loop.simps) (simp add: kIntSize_def kPointerSize_def)
  next
    case False
    then have "\<not> uint32_at_is ?h free_start kSingleFreeEncoding"
      by (simp add: EncodeFreeRegion_def kSingleFreeEncoding_def kMultiFreeEncoding_def)
    then show ?thesis
      using assms(3) w b False
      by (subst live_objects_loop.simps) simp
  qed
  have c: "end' \<le> ?next \<Longrightarrow> live_objects_loop size_func end' free_start n ?h = Some (n, ?h)"
    unfolding step by (rule live_objects_loop_done) simp
  have d: "live_objects_loop size_func end' free_start n ?h =
        live_objects_loop size_func end' (?next + fst (size_func ?next ?h)) (n + 1)
          (snd (size_func ?next ?h))"
    if "?next < end'" "\<not> uint32_at_is h ?next kSingleFreeEncoding"
      "\<not> uint32_at_is h ?next kMultiFreeEncoding"
  proof -
    have "?next \<noteq> free_start" using assms(1) by (simp add: kIntSize_def)
    then have "\<not> uint32_at_is ?h ?next kSingleFreeEncoding"
      "\<not> uint32_at_is ?h ?next kMultiFreeEncoding"
      using that(2,3) by (auto simp add: EncodeFreeRegion_def)
    then show ?thesis
      unfolding step using that(1) by (subst live_objects_loop.simps) simp
  qed
  have e: "s = kIntSize \<Longrightarrow> s = kPointerSize"
    by (simp add: kIntSize_def kPointerSize_def)
  show ?thesis
    unfolding Let_def
    apply (intro conjI impI)
        apply (rule a)
       apply (erule e)
      apply (erule b)
     apply (erule c)
    apply (elim conjE)
    apply (erule (2) d)
    done
qed

text \<open>
  A region of twelve bytes and a region of one word, each with an object of twenty bytes
  behind it that ends the range: the callback gets that object and no other.
\<close>

theorem free_region_round_trip_witness:
  "map_word (EncodeFreeRegion 8448 12 blank_heap) 8448 = FreeRegionWord 1 \<and>
   Memory (EncodeFreeRegion 8448 12 blank_heap) 8452 = 12 \<and>
   IterateLiveObjectsInRange 8448 8480 visited_size_func (EncodeFreeRegion 8448 12 blank_heap) =
     Some (1, Memory_store 0 8460 (EncodeFreeRegion 8448 12 blank_heap)) \<and>
   map_word (EncodeFreeRegion 8448 4 blank_heap) 8448 = FreeRegionWord 0 \<and>
   Memory (EncodeFreeRegion 8448 4 blank_heap) 8452 = 0 \<and>
   IterateLiveObjectsInRange 8448 8472 visited_size_func (EncodeFreeRegion 8448 4 blank_heap) =
     Some (1, Memory_store 0 8452 (EncodeFreeRegion 8448 4 blank_heap)) \<and>
   IterateLiveObjectsInRange 8448 8460 visited_size_func (EncodeFreeRegion 8448 12 blank_heap) =
     Some (0, EncodeFreeRegion 8448 12 blank_heap)"
proof -
  have live: "\<not> uint32_at_is blank_heap a kSingleFreeEncoding"
    "\<not> uint32_at_is blank_heap a kMultiFreeEncoding" for a
    by (simp_all add: uint32_at_is_def blank_heap_def)
  have sizes: "kIntSize \<le> 12" "12 \<le> INT_MAX" "kIntSize \<le> 4" "4 \<le> INT_MAX"
    by (simp_all add: kIntSize_def INT_MAX_def)
  note m = free_region_round_trip [of 12 8448 8480 blank_heap visited_size_func 0,
      unfolded Let_def, OF sizes(1,2), THEN conjunct2]
  note s = free_region_round_trip [of 4 8448 8472 blank_heap visited_size_func 0,
      unfolded Let_def, OF sizes(3,4), THEN conjunct2]
  note e = free_region_round_trip [of 12 8448 8460 blank_heap visited_size_func 0,
      unfolded Let_def, OF sizes(1,2), THEN conjunct2]
  have 1: "IterateLiveObjectsInRange 8448 8480 visited_size_func
        (EncodeFreeRegion 8448 12 blank_heap) =
      Some (1, Memory_store 0 8460 (EncodeFreeRegion 8448 12 blank_heap))"
    using m live
    by (simp add: IterateLiveObjectsInRange_def visited_size_func_def live_objects_loop_done)
  have 2: "IterateLiveObjectsInRange 8448 8472 visited_size_func
        (EncodeFreeRegion 8448 4 blank_heap) =
      Some (1, Memory_store 0 8452 (EncodeFreeRegion 8448 4 blank_heap))"
    using s live
    by (simp add: IterateLiveObjectsInRange_def visited_size_func_def live_objects_loop_done)
  have 3: "IterateLiveObjectsInRange 8448 8460 visited_size_func
        (EncodeFreeRegion 8448 12 blank_heap) = Some (0, EncodeFreeRegion 8448 12 blank_heap)"
    using e by (simp add: IterateLiveObjectsInRange_def)
  have 4: "map_word (EncodeFreeRegion 8448 12 blank_heap) 8448 = FreeRegionWord 1"
    "Memory (EncodeFreeRegion 8448 12 blank_heap) 8452 = 12"
    "map_word (EncodeFreeRegion 8448 4 blank_heap) 8448 = FreeRegionWord 0"
    "Memory (EncodeFreeRegion 8448 4 blank_heap) 8452 = 0"
    by (simp_all add: EncodeFreeRegion_def uint32_store_def Memory_store_def kIntSize_def
        kSingleFreeEncoding_def kMultiFreeEncoding_def blank_heap_def)
  from 1 2 3 4 show ?thesis by simp
qed

subsection \<open>UpdatePointer\<close>

text \<open>
  Claim C10: when the slot does not hold a pointer to a heap object, \<open>UpdatePointer\<close>
  returns with the heap as it was; whatever the slot holds, no other slot and nothing
  else of the heap changes, and a slot that changes held a pointer to a heap object.
\<close>

theorem UpdatePointer_frame:
  "(\<not> IsHeapObject (slot h p) \<longrightarrow> UpdatePointer G p h = h) \<and>
   (\<forall>q. slot (UpdatePointer G p h) q \<noteq> slot h q \<longrightarrow> q = p \<and> IsHeapObject (slot h p)) \<and>
   map_word (UpdatePointer G p h) = map_word h \<and>
   Memory (UpdatePointer G p h) = Memory h \<and>
   page (UpdatePointer G p h) = page h \<and>
   heap.more (UpdatePointer G p h) = heap.more h"
  by (auto simp: UpdatePointer_def Let_def)

theorem UpdatePointer_frame_witness:
  "\<not> IsHeapObject (slot smi_slot_heap 100) \<and>
   UpdatePointer sample_geometry 100 smi_slot_heap = smi_slot_heap \<and>
   slot (UpdatePointer sample_geometry 104 smi_slot_heap) 104 = HeapObject 8448 \<and>
   slot (UpdatePointer sample_geometry 104 smi_slot_heap) 104 \<noteq> slot smi_slot_heap 104 \<and>
   IsHeapObject (slot smi_slot_heap 104)"
proof -
  have a: "\<not> IsHeapObject (slot smi_slot_heap 100)"
    by (simp add: smi_slot_heap_def blank_heap_def)
  have b: "slot (UpdatePointer sample_geometry 104 smi_slot_heap) 104 = HeapObject 8448"
    by (simp add: UpdatePointer_def Let_def smi_slot_heap_def blank_heap_def
        sample_geometry_def Address_at_def ToSpaceOffsetForAddress_def)
  have b': "slot (UpdatePointer sample_geometry 104 smi_slot_heap) 104 \<noteq> slot smi_slot_heap 104"
    unfolding b by (simp add: smi_slot_heap_def blank_heap_def)
  from UpdatePointer_frame [of smi_slot_heap 100 sample_geometry] a
  have c: "UpdatePointer sample_geometry 100 smi_slot_heap = smi_slot_heap"
    by (elim conjE) (erule mp)
  from UpdatePointer_frame [of smi_slot_heap 104 sample_geometry]
  have "slot (UpdatePointer sample_geometry 104 smi_slot_heap) 104 \<noteq> slot smi_slot_heap 104 \<longrightarrow>
          (104::int) = 104 \<and> IsHeapObject (slot smi_slot_heap 104)"
    by (elim conjE) (erule spec)
  with b' have d: "IsHeapObject (slot smi_slot_heap 104)"
    by (elim impE conjE) assumption+
  show ?thesis
    by (intro conjI) (rule a c b b' d)+
qed

subsection \<open>Promotion of new-space objects\<close>

text \<open>
  Claim C7: for a new-space object, \<open>MCAllocateFromNewSpace\<close> first requests the space in
  the object's target space, the code space for heap numbers and sequential strings and
  the old space for all other objects; if and only if that request fails, it requests the
  space from the new space instead, and returns what that request returns. The failure of
  the promotion does not come back: the result is a failure only when the new space
  refuses as well.
\<close>

theorem MCAllocateFromNewSpace_promotion:
  "let target = (if kind object = HeapNumber \<or> kind object = SeqString
                 then CODE_SPACE else OLD_SPACE);
       (r1, s1) = raw target object_size (spaces a);
       (r2, s2) = raw NEW_SPACE object_size s1;
       (forwarded, a') = MCAllocateFromNewSpace raw kind object object_size a
   in target = TargetSpace (kind object) \<and>
      requests a' = requests a @ (target, object_size) #
                      (if IsFailure r1 then [(NEW_SPACE, object_size)] else []) \<and>
      forwarded = (if IsFailure r1 then r2 else r1) \<and>
      spaces a' = (if IsFailure r1 then s2 else s1) \<and>
      (IsFailure forwarded \<longleftrightarrow> IsFailure r1 \<and> IsFailure r2)"
  by (auto simp: MCAllocateFromNewSpace_def MCAllocateRaw_def TargetSpace_def Let_def
      split: prod.splits)

theorem MCAllocateFromNewSpace_promotion_witness:
  "fst (MCAllocateFromNewSpace bump_allocate (\<lambda>a. OtherObject) 2097152 16 full_old_space)
     = HeapObject 1048576 \<and>
   requests (snd (MCAllocateFromNewSpace bump_allocate (\<lambda>a. OtherObject) 2097152 16
      full_old_space)) = [(OLD_SPACE, 16), (NEW_SPACE, 16)] \<and>
   fst (MCAllocateFromNewSpace bump_allocate (\<lambda>a. SeqString) 2097152 16 full_old_space)
     = HeapObject 16640 \<and>
   requests (snd (MCAllocateFromNewSpace bump_allocate (\<lambda>a. SeqString) 2097152 16
      full_old_space)) = [(CODE_SPACE, 16)]"
  using MCAllocateFromNewSpace_promotion
      [of "\<lambda>a. OtherObject" 2097152 bump_allocate 16 full_old_space]
    MCAllocateFromNewSpace_promotion
      [of "\<lambda>a. SeqString" 2097152 bump_allocate 16 full_old_space]
  by (simp add: Let_def bump_allocate_def full_old_space_def split: prod.splits)

subsection \<open>Marking\<close>

lemma map_word_set_map_word [simp]:
  "map_word (set_map_word obj w h) = (map_word h)(obj := w)"
  by (simp add: set_map_word_def)

lemma slot_set_map_word [simp]: "slot (set_map_word obj w h) = slot h"
  by (simp add: set_map_word_def)

lemma SetMark_simps [simp]:
  "is_map_pointer w \<Longrightarrow> IsMarked (SetMark w)"
  "map_address (SetMark w) = map_address w"
  "IsOverflowed (SetMark w) = IsOverflowed w"
  "is_map_pointer (SetMark w) = is_map_pointer w"
  by (cases w; simp)+

lemma SetOverflow_simps [simp]:
  "IsMarked (SetOverflow w) = IsMarked w"
  "map_address (SetOverflow w) = map_address w"
  "is_map_pointer w \<Longrightarrow> IsOverflowed (SetOverflow w)"
  "is_map_pointer (SetOverflow w) = is_map_pointer w"
  by (cases w; simp)+

lemma ClearMark_simps [simp]:
  "map_address (ClearMark w) = map_address w"
  "IsOverflowed (ClearMark w) = IsOverflowed w"
  "is_map_pointer (ClearMark w) = is_map_pointer w"
  "is_map_pointer w \<Longrightarrow> \<not> IsMarked (ClearMark w)"
  by (cases w; simp)+

lemma ClearOverflow_simps [simp]:
  "IsMarked (ClearOverflow w) = IsMarked w"
  "map_address (ClearOverflow w) = map_address w"
  "is_map_pointer (ClearOverflow w) = is_map_pointer w"
  "is_map_pointer w \<Longrightarrow> \<not> IsOverflowed (ClearOverflow w)"
  by (cases w; simp)+

text \<open>\<^verbatim>\<open>ToMap()\<close> gives the map when neither bit marks the word.\<close>

lemma ToMap_plain: "\<not> IsMarked w \<Longrightarrow> \<not> IsOverflowed w \<Longrightarrow> ToMap w = map_address w"
  by (simp add: ToMap_def)

lemma ToMap_ClearMark:
  "is_map_pointer w \<Longrightarrow>
   ToMap (ClearMark w) = map_address w + (if IsOverflowed w then kOverflowMask else 0)"
  by (simp add: ToMap_def)

lemma map_word_Push:
  "map_word (Push M obj h) x =
     (if x = obj \<and> is_full M h then SetOverflow (map_word h obj) else map_word h x)"
  by (simp add: Push_def obj_SetOverflow_def)

lemma slot_Push [simp]: "slot (Push M obj h) = slot h"
  by (simp add: Push_def obj_SetOverflow_def)

lemma map_word_MarkUnmarkedObject_other:
  "x \<noteq> obj \<Longrightarrow> map_word (MarkUnmarkedObject M obj h) x = map_word h x"
  by (simp add: MarkUnmarkedObject_def Let_def map_word_Push obj_SetMark_def obj_SetOverflow_def
      ClearCodeCache_def)

lemma IsMarked_MarkUnmarkedObject:
  "is_map_pointer (map_word h obj) \<Longrightarrow> obj_IsMarked (MarkUnmarkedObject M obj h) obj"
  by (simp add: MarkUnmarkedObject_def Let_def map_word_Push obj_SetMark_def obj_SetOverflow_def
      ClearCodeCache_def obj_IsMarked_def)

lemma slot_MarkUnmarkedObject:
  "\<not> IsMap M h obj \<Longrightarrow> slot (MarkUnmarkedObject M obj h) = slot h"
  by (simp add: MarkUnmarkedObject_def Let_def obj_SetMark_def obj_SetOverflow_def IsMap_def
      obj_map_def)

lemma map_word_MarkObject_other:
  "x \<noteq> obj \<Longrightarrow> map_word (MarkObject M obj h) x = map_word h x"
  by (simp add: MarkObject_def map_word_MarkUnmarkedObject_other)

lemma IsMarked_MarkObject:
  "is_map_pointer (map_word h obj) \<Longrightarrow> obj_IsMarked (MarkObject M obj h) obj"
  by (simp add: MarkObject_def IsMarked_MarkUnmarkedObject)

lemma slot_MarkObject:
  "\<not> IsMap M h obj \<Longrightarrow> slot (MarkObject M obj h) = slot h"
  by (simp add: MarkObject_def slot_MarkUnmarkedObject)


text \<open>
  With the overflow bit set, the instance type is read two bytes behind the map, and the
  outcome is that of whatever is found there. Where it is no cons-string type, a cons
  string that the marking stack had no room for is left in the slot.
\<close>

lemma MarkObjectByPointer_overflowed_cons_string:
  assumes "slot h p = HeapObject c" "is_map_pointer (map_word h c)"
    "IsMarked (map_word h c)" "IsOverflowed (map_word h c)"
    "FIRST_NONSTRING_TYPE M \<le> instance_type M (true_map h c + kOverflowMask)"
  shows "MarkObjectByPointer M p h = h"
  using assms
  by (simp add: MarkObjectByPointer_def is_flat_cons_string_def Let_def ToMap_ClearMark
      true_map_def MarkObject_def obj_IsMarked_def)

section \<open>The marking stack and its overflow\<close>

subsection \<open>Steps of the marking code\<close>

lemma obj_simps [simp]:
  "obj_IsMarked (set_map_word obj w h) a = (if a = obj then IsMarked w else obj_IsMarked h a)"
  "obj_IsOverflowed (set_map_word obj w h) a =
     (if a = obj then IsOverflowed w else obj_IsOverflowed h a)"
  "true_map (set_map_word obj w h) a = (if a = obj then map_address w else true_map h a)"
  by (simp_all add: obj_IsMarked_def obj_IsOverflowed_def true_map_def set_map_word_def)

lemma obj_map_plain:
  "\<not> obj_IsMarked h a \<Longrightarrow> \<not> obj_IsOverflowed h a \<Longrightarrow> obj_map h a = true_map h a"
  by (simp add: obj_map_def true_map_def obj_IsMarked_def obj_IsOverflowed_def ToMap_plain)

lemma marking_stepD:
  assumes "marking_step M X h h'"
  shows "marking_wf M h'"
    and "obj_IsMarked h a \<Longrightarrow> obj_IsMarked h' a"
    and "true_map h' a = true_map h a"
    and "slot h' p = slot h p \<or> slot_ok h' p"
    and "target_address h' r = target_address h r \<or> target_ok M h' r"
    and "overflowed h \<Longrightarrow> overflowed h'"
    and "obj_IsOverflowed h' a \<Longrightarrow> obj_IsOverflowed h a \<or> overflowed h'"
    and "obj_IsOverflowed h a \<Longrightarrow> obj_IsOverflowed h' a"
    and "set (marking_stack h) \<subseteq> set (marking_stack h')"
    and "obj_IsMarked h' a \<Longrightarrow>
           obj_IsMarked h a \<or> a \<in> X \<or> is_gray h' a \<or> children_marked M h' a"
  using assms by (simp_all add: marking_step_def)

lemma marking_stepI:
  assumes "marking_wf M h'"
    and "\<And>a. obj_IsMarked h a \<Longrightarrow> obj_IsMarked h' a"
    and "\<And>a. true_map h' a = true_map h a"
    and "\<And>p. slot h' p = slot h p \<or> slot_ok h' p"
    and "\<And>r. target_address h' r = target_address h r \<or> target_ok M h' r"
    and "overflowed h \<Longrightarrow> overflowed h'"
    and "\<And>a. obj_IsOverflowed h' a \<Longrightarrow> obj_IsOverflowed h a \<or> overflowed h'"
    and "\<And>a. obj_IsOverflowed h a \<Longrightarrow> obj_IsOverflowed h' a"
    and "set (marking_stack h) \<subseteq> set (marking_stack h')"
    and "\<And>a. obj_IsMarked h' a \<Longrightarrow>
           obj_IsMarked h a \<or> a \<in> X \<or> is_gray h' a \<or> children_marked M h' a"
  shows "marking_step M X h h'"
  using assms by (simp add: marking_step_def)

lemma marked_mono:
  "marking_step M X h h' \<Longrightarrow> obj_IsMarked h a \<Longrightarrow> obj_IsMarked h' a"
  by (rule marking_stepD)

lemma slot_ok_mono:
  assumes "marking_step M X h h'" "slot_ok h p"
  shows "slot_ok h' p"
  using marking_stepD(4) [OF assms(1), of p] marking_stepD(2) [OF assms(1)] assms(2)
  unfolding slot_ok_def by metis

lemma target_ok_mono:
  assumes "marking_step M X h h'" "target_ok M h r"
  shows "target_ok M h' r"
  using marking_stepD(5) [OF assms(1), of r] marking_stepD(2) [OF assms(1)] assms(2)
  unfolding target_ok_def code_of_def by metis

lemma item_ok_mono: "item_ok M i h \<Longrightarrow> marking_step M X h h' \<Longrightarrow> item_ok M i h'"
  unfolding item_ok_def by (blast intro: slot_ok_mono target_ok_mono)

lemma children_marked_mono:
  assumes "marking_step M X h h'" "children_marked M h a"
  shows "children_marked M h' a"
  using assms(2) marking_stepD(3) [OF assms(1), of a]
  unfolding children_marked_def
  by (auto intro: item_ok_mono [OF _ assms(1)] marked_mono [OF assms(1)])

lemma is_gray_mono:
  assumes "marking_step M X h h'" "is_gray h a"
  shows "is_gray h' a"
  using marking_stepD(8,9) [OF assms(1)] assms(2) unfolding is_gray_def by blast

lemma marking_step_refl: "marking_wf M h \<Longrightarrow> marking_step M X h h"
  by (rule marking_stepI) simp_all

lemma marking_step_trans:
  assumes a: "marking_step M X h h1" and b: "marking_step M X h1 h2"
  shows "marking_step M X h h2"
proof (rule marking_stepI)
  show "marking_wf M h2" by (rule marking_stepD(1) [OF b])
  show "obj_IsMarked h x \<Longrightarrow> obj_IsMarked h2 x" for x
    using marked_mono [OF a] marked_mono [OF b] by blast
  show "true_map h2 x = true_map h x" for x
    using marking_stepD(3) [OF a] marking_stepD(3) [OF b] by simp
  show "slot h2 p = slot h p \<or> slot_ok h2 p" for p
    using marking_stepD(4) [OF a, of p] marking_stepD(4) [OF b, of p] slot_ok_mono [OF b, of p]
    by metis
  show "target_address h2 r = target_address h r \<or> target_ok M h2 r" for r
    using marking_stepD(5) [OF a, of r] marking_stepD(5) [OF b, of r] target_ok_mono [OF b, of r]
    by metis
  show "overflowed h \<Longrightarrow> overflowed h2"
    using marking_stepD(6) [OF a] marking_stepD(6) [OF b] by blast
  show "obj_IsOverflowed h2 x \<Longrightarrow> obj_IsOverflowed h x \<or> overflowed h2" for x
    using marking_stepD(7) [OF a, of x] marking_stepD(7) [OF b, of x] marking_stepD(6) [OF b]
    by blast
  show "obj_IsOverflowed h x \<Longrightarrow> obj_IsOverflowed h2 x" for x
    using marking_stepD(8) [OF a, of x] marking_stepD(8) [OF b, of x] by blast
  show "set (marking_stack h) \<subseteq> set (marking_stack h2)"
    using marking_stepD(9) [OF a] marking_stepD(9) [OF b] by blast
  show "obj_IsMarked h2 x \<Longrightarrow>
      obj_IsMarked h x \<or> x \<in> X \<or> is_gray h2 x \<or> children_marked M h2 x" for x
    using marking_stepD(10) [OF a, of x] marking_stepD(10) [OF b, of x]
      is_gray_mono [OF b, of x] children_marked_mono [OF b, of x]
    by blast
qed

lemma marking_step_weaken:
  assumes st: "marking_step M X h h'"
    and new: "\<And>a. obj_IsMarked h' a \<Longrightarrow> \<not> obj_IsMarked h a \<Longrightarrow> a \<in> X \<Longrightarrow>
        a \<in> Y \<or> is_gray h' a \<or> children_marked M h' a"
  shows "marking_step M Y h h'"
proof (rule marking_stepI)
  show "obj_IsMarked h' a \<Longrightarrow>
      obj_IsMarked h a \<or> a \<in> Y \<or> is_gray h' a \<or> children_marked M h' a" for a
    using marking_stepD(10) [OF st, of a] new [of a] by blast
qed (rule marking_stepD [OF st]; assumption?)+

lemma marking_step_mono:
  "marking_step M X h h' \<Longrightarrow> X \<subseteq> Y \<Longrightarrow> marking_step M Y h h'"
  by (erule marking_step_weaken) blast

lemma marking_step_discharge:
  "marking_step M (insert a X) h h' \<Longrightarrow> children_marked M h' a \<Longrightarrow> marking_step M X h h'"
  by (erule marking_step_weaken) blast

subsection \<open>Marking one object\<close>

lemma obj_update_simps [simp]:
  "obj_IsMarked (h\<lparr>gc_tracer := t\<rparr>) = obj_IsMarked h"
  "obj_IsMarked (h\<lparr>global_objects := g\<rparr>) = obj_IsMarked h"
  "obj_IsMarked (h\<lparr>slot := sl\<rparr>) = obj_IsMarked h"
  "obj_IsMarked (h\<lparr>target_address := ta\<rparr>) = obj_IsMarked h"
  "obj_IsMarked (h\<lparr>ic_flag := ic\<rparr>) = obj_IsMarked h"
  "obj_IsMarked (h\<lparr>marking_stack := st\<rparr>) = obj_IsMarked h"
  "obj_IsMarked (h\<lparr>overflowed := ov\<rparr>) = obj_IsMarked h"
  "obj_IsOverflowed (h\<lparr>gc_tracer := t\<rparr>) = obj_IsOverflowed h"
  "obj_IsOverflowed (h\<lparr>global_objects := g\<rparr>) = obj_IsOverflowed h"
  "obj_IsOverflowed (h\<lparr>slot := sl\<rparr>) = obj_IsOverflowed h"
  "obj_IsOverflowed (h\<lparr>target_address := ta\<rparr>) = obj_IsOverflowed h"
  "obj_IsOverflowed (h\<lparr>ic_flag := ic\<rparr>) = obj_IsOverflowed h"
  "obj_IsOverflowed (h\<lparr>marking_stack := st\<rparr>) = obj_IsOverflowed h"
  "obj_IsOverflowed (h\<lparr>overflowed := ov\<rparr>) = obj_IsOverflowed h"
  "obj_map (h\<lparr>gc_tracer := t\<rparr>) = obj_map h"
  "obj_map (h\<lparr>global_objects := g\<rparr>) = obj_map h"
  "obj_map (h\<lparr>slot := sl\<rparr>) = obj_map h"
  "obj_map (h\<lparr>target_address := ta\<rparr>) = obj_map h"
  "obj_map (h\<lparr>ic_flag := ic\<rparr>) = obj_map h"
  "obj_map (h\<lparr>marking_stack := st\<rparr>) = obj_map h"
  "obj_map (h\<lparr>overflowed := ov\<rparr>) = obj_map h"
  "true_map (h\<lparr>gc_tracer := t\<rparr>) = true_map h"
  "true_map (h\<lparr>global_objects := g\<rparr>) = true_map h"
  "true_map (h\<lparr>slot := sl\<rparr>) = true_map h"
  "true_map (h\<lparr>target_address := ta\<rparr>) = true_map h"
  "true_map (h\<lparr>ic_flag := ic\<rparr>) = true_map h"
  "true_map (h\<lparr>marking_stack := st\<rparr>) = true_map h"
  "true_map (h\<lparr>overflowed := ov\<rparr>) = true_map h"
  by (simp_all add: obj_IsMarked_def obj_IsOverflowed_def obj_map_def true_map_def fun_eq_iff)

lemma Push_fields [simp]:
  "marking_stack (Push M obj h) = (if is_full M h then marking_stack h else obj # marking_stack h)"
  "overflowed (Push M obj h) = (overflowed h \<or> is_full M h)"
  "target_address (Push M obj h) = target_address h"
  "gc_tracer (Push M obj h) = gc_tracer h"
  by (simp_all add: Push_def obj_SetOverflow_def set_map_word_def)

lemma Push_words [simp]:
  "obj_IsMarked (Push M obj h) a = obj_IsMarked h a"
  "true_map (Push M obj h) a = true_map h a"
  "is_map_pointer (map_word (Push M obj h) a) = is_map_pointer (map_word h a)"
  by (simp_all add: Push_def obj_SetOverflow_def obj_IsMarked_def true_map_def)

lemma Push_overflow:
  "is_map_pointer (map_word h obj) \<Longrightarrow>
   obj_IsOverflowed (Push M obj h) a = (if a = obj \<and> is_full M h then True else obj_IsOverflowed h a)"
  by (simp add: Push_def obj_SetOverflow_def)

lemma is_full_simps [simp]:
  "is_full M (set_map_word obj w h) = is_full M h"
  "is_full M (h\<lparr>gc_tracer := t\<rparr>) = is_full M h"
  "is_full M (h\<lparr>global_objects := g\<rparr>) = is_full M h"
  "is_full M (h\<lparr>slot := sl\<rparr>) = is_full M h"
  by (simp_all add: is_full_def set_map_word_def)

lemma set_map_word_fields [simp]:
  "marking_stack (set_map_word obj w h) = marking_stack h"
  "overflowed (set_map_word obj w h) = overflowed h"
  "target_address (set_map_word obj w h) = target_address h"
  "gc_tracer (set_map_word obj w h) = gc_tracer h"
  by (simp_all add: set_map_word_def)

lemma ClearCodeCache_simps [simp]:
  "obj_IsMarked (ClearCodeCache M obj h) = obj_IsMarked h"
  "obj_IsOverflowed (ClearCodeCache M obj h) = obj_IsOverflowed h"
  "obj_map (ClearCodeCache M obj h) = obj_map h"
  "true_map (ClearCodeCache M obj h) = true_map h"
  "map_word (ClearCodeCache M obj h) = map_word h"
  "is_full M (ClearCodeCache M obj h) = is_full M h"
  "marking_stack (ClearCodeCache M obj h) = marking_stack h"
  "overflowed (ClearCodeCache M obj h) = overflowed h"
  "target_address (ClearCodeCache M obj h) = target_address h"
  "gc_tracer (ClearCodeCache M obj h) = gc_tracer h"
  "slot (ClearCodeCache M obj h) = (slot h)(code_cache_slot M obj := empty_fixed_array M)"
  by (simp_all add: ClearCodeCache_def)

lemma MarkUnmarkedObject_fields:
  "marking_stack (MarkUnmarkedObject M obj h) =
     (if \<not> overflowed h \<and> \<not> is_full M h then obj # marking_stack h else marking_stack h)"
  "overflowed (MarkUnmarkedObject M obj h) = (overflowed h \<or> is_full M h)"
  "target_address (MarkUnmarkedObject M obj h) = target_address h"
  "slot (MarkUnmarkedObject M obj h) =
     (if FLAG_cleanup_caches_in_maps_at_gc M \<and> IsMap M h obj
      then (slot h)(code_cache_slot M obj := empty_fixed_array M) else slot h)"
  "true_map (MarkUnmarkedObject M obj h) a = true_map h a"
  by (auto simp add: MarkUnmarkedObject_def Let_def obj_SetMark_def obj_SetOverflow_def
      IsMap_def IsJSGlobalObject_def true_map_def [of h])

lemma MarkUnmarkedObject_words:
  assumes "is_map_pointer (map_word h obj)"
  shows "obj_IsMarked (MarkUnmarkedObject M obj h) a = (a = obj \<or> obj_IsMarked h a)"
    and "obj_IsOverflowed (MarkUnmarkedObject M obj h) a =
      (if a = obj then overflowed h \<or> is_full M h \<or> obj_IsOverflowed h obj
       else obj_IsOverflowed h a)"
    and "is_map_pointer (map_word (MarkUnmarkedObject M obj h) a) = is_map_pointer (map_word h a)"
  using assms
  by (simp_all add: MarkUnmarkedObject_def Let_def obj_SetMark_def obj_SetOverflow_def
      Push_overflow obj_IsOverflowed_def [of h] obj_IsMarked_def [of h])


lemma marking_wfD:
  assumes "marking_wf M h"
  shows "is_map_pointer (map_word h a)"
    and "FLAG_cleanup_caches_in_maps_at_gc M \<Longrightarrow> IsHeapObject (empty_fixed_array M) \<Longrightarrow>
         obj_IsMarked h (address (empty_fixed_array M))"
    and "obj_IsOverflowed h a \<Longrightarrow> obj_IsMarked h a"
    and "a \<in> set (marking_stack h) \<Longrightarrow> obj_IsMarked h a"
    and "a \<in> set (marking_stack h) \<Longrightarrow> \<not> obj_IsOverflowed h a"
  using assms by (auto simp add: marking_wf_def)

lemma marking_wfI:
  assumes "\<And>a. is_map_pointer (map_word h a)"
    and "\<And>a. obj_IsOverflowed h a \<Longrightarrow> obj_IsMarked h a"
    and "\<And>a. a \<in> set (marking_stack h) \<Longrightarrow> obj_IsMarked h a \<and> \<not> obj_IsOverflowed h a"
    and "FLAG_cleanup_caches_in_maps_at_gc M \<Longrightarrow> IsHeapObject (empty_fixed_array M) \<Longrightarrow>
         obj_IsMarked h (address (empty_fixed_array M))"
  shows "marking_wf M h"
  using assms by (simp add: marking_wf_def)

lemma MarkUnmarkedObject_step:
  assumes wf: "marking_wf M h" and un: "\<not> obj_IsMarked h obj"
  shows "marking_step M {} h (MarkUnmarkedObject M obj h)"
proof -
  let ?h = "MarkUnmarkedObject M obj h"
  note w = MarkUnmarkedObject_words [OF marking_wfD(1) [OF wf, of obj], of M]
  note f = MarkUnmarkedObject_fields [of M obj h]
  have no: "\<not> obj_IsOverflowed h obj" "obj \<notin> set (marking_stack h)"
    using un marking_wfD(3,4) [OF wf, of obj] by blast+
  show ?thesis
  proof (rule marking_stepI)
    show "marking_wf M ?h"
    proof (rule marking_wfI)
      show "is_map_pointer (map_word ?h a)" for a
        using marking_wfD(1) [OF wf] by (simp add: w)
      show "obj_IsOverflowed ?h a \<Longrightarrow> obj_IsMarked ?h a" for a
        using marking_wfD(3) [OF wf, of a] by (simp add: w split: if_splits)
      show "obj_IsMarked ?h a \<and> \<not> obj_IsOverflowed ?h a" if "a \<in> set (marking_stack ?h)" for a
        using that no marking_wfD(4,5) [OF wf, of a]
        by (auto simp: w f split: if_splits)
      show "obj_IsMarked ?h (address (empty_fixed_array M))"
        if "FLAG_cleanup_caches_in_maps_at_gc M" "IsHeapObject (empty_fixed_array M)"
        using marking_wfD(2) [OF wf that] by (simp add: w)
    qed
    show "obj_IsMarked h a \<Longrightarrow> obj_IsMarked ?h a" for a by (simp add: w)
    show "true_map ?h a = true_map h a" for a by (simp add: f)
    show "slot ?h p = slot h p \<or> slot_ok ?h p" for p
      using marking_wfD(2) [OF wf] by (simp add: f slot_ok_def w)
    show "target_address ?h r = target_address h r \<or> target_ok M ?h r" for r
      by (simp add: f)
    show "overflowed h \<Longrightarrow> overflowed ?h" by (simp add: f)
    show "obj_IsOverflowed ?h a \<Longrightarrow> obj_IsOverflowed h a \<or> overflowed ?h" for a
      by (auto simp add: f w split: if_splits)
    show "obj_IsOverflowed h a \<Longrightarrow> obj_IsOverflowed ?h a" for a
      by (auto simp add: w)
    show "set (marking_stack h) \<subseteq> set (marking_stack ?h)"
      by (auto simp: f)
    show "obj_IsMarked ?h a \<Longrightarrow>
        obj_IsMarked h a \<or> a \<in> {} \<or> is_gray ?h a \<or> children_marked M ?h a" for a
      by (auto simp: w f is_gray_def)
  qed
qed

lemma MarkObject_step:
  assumes wf: "marking_wf M h"
  shows "marking_step M {} h (MarkObject M obj h)"
    and "obj_IsMarked (MarkObject M obj h) obj"
  using wf MarkUnmarkedObject_step [OF wf, of obj] marking_wfD(1) [OF wf, of obj]
  by (auto simp add: MarkObject_def marking_step_refl MarkUnmarkedObject_words)

lemma marking_wf_slot [simp]: "marking_wf M (h\<lparr>slot := sl\<rparr>) = marking_wf M h"
  by (simp add: marking_wf_def)

lemma marking_wf_target [simp]: "marking_wf M (h\<lparr>target_address := ta\<rparr>) = marking_wf M h"
  by (simp add: marking_wf_def)

lemma step_after_slot_write:
  assumes st: "marking_step M X (h\<lparr>slot := (slot h)(p := v)\<rparr>) h'"
    and v: "IsHeapObject v \<Longrightarrow> obj_IsMarked h' (address v)"
  shows "marking_step M X h h'"
proof (rule marking_stepI)
  show "slot h' q = slot h q \<or> slot_ok h' q" for q
    using marking_stepD(4) [OF st, of q] v by (cases "q = p") (auto simp: slot_ok_def)
qed (use marking_stepD [OF st] in simp_all)

lemma MarkObjectByPointer_step:
  assumes wf: "marking_wf M h"
  shows "marking_step M {} h (MarkObjectByPointer M p h)"
    and "slot_ok (MarkObjectByPointer M p h) p"
proof -
  let ?h = "MarkObjectByPointer M p h"
  have "marking_step M {} h ?h \<and> slot_ok ?h p"
  proof (cases "IsHeapObject (slot h p)")
    case False
    then show ?thesis using wf by (simp add: MarkObjectByPointer_def marking_step_refl slot_ok_def)
  next
    case heap: True
    let ?obj = "slot h p"
    let ?first = "slot h (first_slot M (address ?obj))"
    show ?thesis
    proof (cases "is_flat_cons_string M h (address ?obj) \<and>
        (InNewSpace M ?obj \<or> \<not> InNewSpace M ?first)")
      case True
      let ?h1 = "h\<lparr>slot := (slot h)(p := ?first)\<rparr>"
      have eq: "?h = MarkObject M (address ?first) ?h1"
        using heap True by (simp add: MarkObjectByPointer_def Let_def)
      have wf1: "marking_wf M ?h1" using wf by simp
      note m = MarkObject_step [OF wf1, of "address ?first"]
      have st: "marking_step M {} h ?h"
        unfolding eq by (rule step_after_slot_write [OF m(1)]) (rule m(2))
      have "slot ?h p = ?first \<or> slot_ok ?h p"
        using marking_stepD(4) [OF m(1), of p] unfolding eq by simp
      then have "slot_ok ?h p"
        using m(2) unfolding eq slot_ok_def by auto
      with st show ?thesis by simp
    next
      case False
      then have eq: "?h = MarkObject M (address ?obj) h"
        using heap by (auto simp add: MarkObjectByPointer_def Let_def)
      note m = MarkObject_step [OF wf, of "address ?obj"]
      have "slot ?h p = ?obj \<or> slot_ok ?h p"
        using marking_stepD(4) [OF m(1), of p] unfolding eq by simp
      then have "slot_ok ?h p"
        using m(2) unfolding eq slot_ok_def by auto
      with m(1) show ?thesis unfolding eq by simp
    qed
  qed
  then show "marking_step M {} h ?h" and "slot_ok ?h p" by simp_all
qed


subsection \<open>Relocation entries\<close>

lemma MarkObject_fields [simp]:
  "target_address (MarkObject M obj h) = target_address h"
  by (simp_all add: MarkObject_def MarkUnmarkedObject_fields)

lemma marking_step_frame:
  assumes wf: "marking_wf M h"
    and eq: "map_word h' = map_word h" "slot h' = slot h" "target_address h' = target_address h"
      "marking_stack h' = marking_stack h" "overflowed h' = overflowed h"
  shows "marking_step M X h h'"
proof -
  have m: "obj_IsMarked h' = obj_IsMarked h" "obj_IsOverflowed h' = obj_IsOverflowed h"
    "true_map h' = true_map h"
    using eq by (simp_all add: obj_IsMarked_def obj_IsOverflowed_def true_map_def fun_eq_iff)
  show ?thesis
    using wf by (intro marking_stepI) (simp_all add: m eq marking_wf_def)
qed

lemma target_write_step:
  assumes wf: "marking_wf M h"
    and ok: "\<And>r. ta r = target_address h r \<or> target_ok M (h\<lparr>target_address := ta\<rparr>) r"
  shows "marking_step M {} h (h\<lparr>target_address := ta\<rparr>)"
  using wf ok by (intro marking_stepI) simp_all

lemma marking_VisitCodeTarget_step:
  assumes wf: "marking_wf M h"
  shows "marking_step M {} h (marking_VisitCodeTarget M r h)"
    and "target_ok M (marking_VisitCodeTarget M r h) r"
proof -
  let ?code = "CodeFromDerivedPointer M (target_address h r)"
  let ?h = "marking_VisitCodeTarget M r h"
  have "marking_step M {} h ?h \<and> target_ok M ?h r"
  proof (cases "FLAG_cleanup_ics_at_gc M")
    case True
    then have ok: "target_ok M g q" for g q by (simp add: target_ok_def)
    let ?h1 = "if is_inline_cache_stub M ?code
        then h\<lparr>target_address := IC_Clear M r (target_address h)\<rparr> else MarkObject M ?code h"
    have 1: "marking_step M {} h ?h1"
      using target_write_step [OF wf, of "IC_Clear M r (target_address h)"]
        MarkObject_step(1) [OF wf, of ?code] ok by simp
    have 2: "marking_step M {} ?h1 ?h"
      using target_write_step [OF marking_stepD(1) [OF 1]] marking_step_refl [OF marking_stepD(1) [OF 1]]
        True ok
      by (simp add: marking_VisitCodeTarget_def Let_def)
    show ?thesis using marking_step_trans [OF 1 2] ok by simp
  next
    case False
    let ?h1 = "MarkObject M ?code h"
    note m = MarkObject_step [OF wf, of ?code]
    have wf1: "marking_wf M ?h1" by (rule marking_stepD(1) [OF m(1)])
    show ?thesis
    proof (cases "compacting M")
      case True
      let ?ta = "(target_address h)(r := ?code)"
      have eq: "?h = ?h1\<lparr>target_address := ?ta\<rparr>"
        using False True by (simp add: marking_VisitCodeTarget_def Let_def)
      have ok: "target_ok M (?h1\<lparr>target_address := ?ta\<rparr>) r"
        using m(2) True by (simp add: target_ok_def code_of_def)
      have "marking_step M {} ?h1 (?h1\<lparr>target_address := ?ta\<rparr>)"
        by (rule target_write_step [OF wf1]) (use ok in auto)
      with m(1) ok show ?thesis unfolding eq by (blast intro: marking_step_trans)
    next
      case nc: False
      have eq: "?h = ?h1"
        using False nc by (simp add: marking_VisitCodeTarget_def Let_def)
      show ?thesis unfolding eq
        using m nc by (simp add: target_ok_def code_of_def)
    qed
  qed
  then show "marking_step M {} h ?h" and "target_ok M ?h r" by simp_all
qed

lemma marking_VisitDebugTarget_step:
  assumes wf: "marking_wf M h"
  shows "marking_step M {} h (marking_VisitDebugTarget M r h)"
    and "target_ok M (marking_VisitDebugTarget M r h) r"
proof -
  let ?code = "CodeFromDerivedPointer M (target_address h r)"
  let ?h = "marking_VisitDebugTarget M r h"
  let ?h1 = "MarkObject M ?code h"
  note m = MarkObject_step [OF wf, of ?code]
  have wf1: "marking_wf M ?h1" by (rule marking_stepD(1) [OF m(1)])
  have "marking_step M {} h ?h \<and> target_ok M ?h r"
  proof (cases "compacting M")
    case True
    let ?ta = "(target_address h)(r := ?code)"
    have eq: "?h = ?h1\<lparr>target_address := ?ta\<rparr>"
      using True by (simp add: marking_VisitDebugTarget_def Let_def)
    have ok: "target_ok M (?h1\<lparr>target_address := ?ta\<rparr>) r"
      using m(2) True by (simp add: target_ok_def code_of_def)
    have "marking_step M {} ?h1 (?h1\<lparr>target_address := ?ta\<rparr>)"
      by (rule target_write_step [OF wf1]) (use ok in auto)
    with m(1) ok show ?thesis unfolding eq by (blast intro: marking_step_trans)
  next
    case nc: False
    have eq: "?h = ?h1"
      using nc by (simp add: marking_VisitDebugTarget_def Let_def)
    show ?thesis unfolding eq
      using m nc by (simp add: target_ok_def code_of_def)
  qed
  then show "marking_step M {} h ?h" and "target_ok M ?h r" by simp_all
qed

lemma marking_EndCodeIteration_step:
  "marking_wf M h \<Longrightarrow> marking_step M {} h (marking_EndCodeIteration M code h)"
  by (rule marking_step_frame) (simp_all add: marking_EndCodeIteration_def)


subsection \<open>The body of an object\<close>

lemma for_each_step:
  assumes f: "\<And>x g g'. x \<in> set xs \<Longrightarrow> marking_wf M g \<Longrightarrow> f x g = Some g' \<Longrightarrow>
        marking_step M {} g g' \<and> Q x g'"
    and mono: "\<And>x g g'. Q x g \<Longrightarrow> marking_step M {} g g' \<Longrightarrow> Q x g'"
    and wf: "marking_wf M h"
    and run: "for_each f xs h = Some h'"
  shows "marking_step M {} h h' \<and> (\<forall>x \<in> set xs. Q x h')"
  using f wf run
proof (induction xs arbitrary: h)
  case Nil
  then show ?case by (simp add: marking_step_refl)
next
  case (Cons x xs)
  from Cons.prems(3) obtain g where g: "f x h = Some g" and rest: "for_each f xs g = Some h'"
    by (cases "f x h") simp_all
  have 1: "marking_step M {} h g" "Q x g"
    using Cons.prems(1) [of x h g] Cons.prems(2) g by simp_all
  have 2: "marking_step M {} g h' \<and> (\<forall>y \<in> set xs. Q y h')"
    by (rule Cons.IH [OF _ marking_stepD(1) [OF 1(1)] rest]) (rule Cons.prems(1), simp_all)
  show ?case
    using marking_step_trans [OF 1(1)] 2 mono [OF 1(2)] by simp
qed

lemma fold_MarkObjectByPointer_step:
  assumes wf: "marking_wf M h"
  shows "marking_step M {} h (fold (MarkObjectByPointer M) ps h) \<and>
         (\<forall>p \<in> set ps. slot_ok (fold (MarkObjectByPointer M) ps h) p)"
proof -
  have run: "for_each (\<lambda>p g. Some (MarkObjectByPointer M p g)) ps h =
      Some (fold (MarkObjectByPointer M) ps h)"
    by (induction ps arbitrary: h) simp_all
  show ?thesis
    by (rule for_each_step [where f = "\<lambda>p g. Some (MarkObjectByPointer M p g)"
          and Q = "\<lambda>p g. slot_ok g p", OF _ _ wf run])
       (auto intro: MarkObjectByPointer_step slot_ok_mono)
qed

lemma visit_specD:
  assumes "visit_spec M visit" "marking_wf M h" "\<not> obj_IsMarked h obj" "visit obj h = Some h'"
  shows "marking_step M {} h h'" and "obj_IsMarked h' obj"
  using assms unfolding visit_spec_def by blast+

lemma VisitUnmarkedObjects_step:
  assumes spec: "visit_spec M visit"
    and wf: "marking_wf M h"
    and run: "VisitUnmarkedObjects M visit depth start end' h = Some (True, h')"
  shows "marking_step M {} h h' \<and> (\<forall>p \<in> set [start..end' - 1]. slot_ok h' p)"
proof -
  let ?f = "\<lambda>p g. if \<not> IsHeapObject (slot g p) then Some g
                   else if obj_IsMarked g (address (slot g p)) then Some g
                   else visit (address (slot g p)) g"
  from run have r: "for_each ?f [start..end' - 1] h = Some h'"
    by (auto simp: VisitUnmarkedObjects_def split: if_splits)
  show ?thesis
  proof (rule for_each_step [where f = ?f and Q = "\<lambda>p g. slot_ok g p", OF _ _ wf r])
    fix p g g'
    assume g: "marking_wf M g" and v: "?f p g = Some g'"
    show "marking_step M {} g g' \<and> slot_ok g' p"
    proof (cases "\<not> IsHeapObject (slot g p) \<or> obj_IsMarked g (address (slot g p))")
      case True
      then have "g' = g" using v by (auto split: if_splits)
      then show ?thesis using True g by (auto simp: marking_step_refl slot_ok_def)
    next
      case False
      then have vis: "visit (address (slot g p)) g = Some g'" using v by simp
      note s = visit_specD [OF spec g _ vis]
      have "\<not> obj_IsMarked g (address (slot g p))" using False by simp
      note s = s [OF this]
      have "slot g' p = slot g p \<or> slot_ok g' p" by (rule marking_stepD(4) [OF s(1)])
      then show ?thesis using s by (auto simp: slot_ok_def)
    qed
  qed (rule slot_ok_mono)
qed

lemma VisitUnmarkedObjects_refused:
  "VisitUnmarkedObjects M visit depth start end' h = Some (False, h') \<Longrightarrow> h' = h"
  by (auto simp: VisitUnmarkedObjects_def split: if_splits)

lemma marking_VisitPointers_step:
  assumes spec: "visit_spec M visit"
    and wf: "marking_wf M h"
    and run: "marking_VisitPointers M visit depth start end' h = Some h'"
  shows "marking_step M {} h h' \<and> (\<forall>p \<in> set [start..end' - 1]. slot_ok h' p)"
proof (cases "kMinRangeForMarkingRecursion \<le> end' - start")
  case False
  then have "h' = fold (MarkObjectByPointer M) [start..end' - 1] h"
    using run by (simp add: marking_VisitPointers_def)
  then show ?thesis using fold_MarkObjectByPointer_step [OF wf] by simp
next
  case True
  then obtain b g where v: "VisitUnmarkedObjects M visit depth start end' h = Some (b, g)"
    using run by (cases "VisitUnmarkedObjects M visit depth start end' h")
      (auto simp: marking_VisitPointers_def)
  show ?thesis
  proof (cases b)
    case True
    then have "g = h'" using run v \<open>kMinRangeForMarkingRecursion \<le> end' - start\<close>
      by (simp add: marking_VisitPointers_def)
    then show ?thesis using VisitUnmarkedObjects_step [OF spec wf] v True by simp
  next
    case False
    then have "g = h" using VisitUnmarkedObjects_refused [of M visit depth start end' h g] v by simp
    then have "h' = fold (MarkObjectByPointer M) [start..end' - 1] h"
      using run v False \<open>kMinRangeForMarkingRecursion \<le> end' - start\<close>
      by (simp add: marking_VisitPointers_def)
    then show ?thesis using fold_MarkObjectByPointer_step [OF wf] by simp
  qed
qed

lemma visit_item_step:
  assumes spec: "visit_spec M visit"
    and wf: "marking_wf M h"
    and run: "visit_item (marking_visitor M visit depth) i h = Some h'"
  shows "marking_step M {} h h' \<and> item_ok M i h'"
proof (cases i)
  case (Pointer p)
  then show ?thesis
    using run MarkObjectByPointer_step [OF wf, of p]
    by (auto simp: marking_visitor_def item_ok_def)
next
  case (Pointers s e)
  then show ?thesis
    using run marking_VisitPointers_step [OF spec wf, of depth s e h']
    by (simp add: marking_visitor_def item_ok_def)
next
  case (CodeTarget r)
  then show ?thesis
    using run marking_VisitCodeTarget_step [OF wf, of r]
    by (auto simp: marking_visitor_def item_ok_def)
next
  case (DebugTarget r)
  then show ?thesis
    using run marking_VisitDebugTarget_step [OF wf, of r]
    by (auto simp: marking_visitor_def item_ok_def)
next
  case (BeginCode c)
  then show ?thesis
    using run wf by (auto simp: marking_visitor_def item_ok_def marking_step_refl)
next
  case (EndCode c)
  then show ?thesis
    using run marking_EndCodeIteration_step [OF wf, of c]
    by (auto simp: marking_visitor_def item_ok_def)
qed

lemma IterateBody_step:
  assumes spec: "visit_spec M visit"
    and wf: "marking_wf M h"
    and run: "IterateBody M (marking_visitor M visit depth) obj h = Some h'"
  shows "marking_step M {} h h'" and "\<forall>i \<in> set (body M obj). item_ok M i h'"
proof -
  have "marking_step M {} h h' \<and> (\<forall>i \<in> set (body M obj). item_ok M i h')"
  proof (rule for_each_step [where Q = "item_ok M", OF _ _ wf run [unfolded IterateBody_def]])
    show "marking_step M {} g g' \<and> item_ok M i g'"
      if "marking_wf M g" "visit_item (marking_visitor M visit depth) i g = Some g'" for i g g'
      by (rule visit_item_step [OF spec that])
  qed (rule item_ok_mono)
  then show "marking_step M {} h h'" and "\<forall>i \<in> set (body M obj). item_ok M i h'"
    by simp_all
qed


subsection \<open>Visiting an unmarked object\<close>

lemma obj_SetMark_words:
  "is_map_pointer (map_word h obj) \<Longrightarrow>
   obj_IsMarked (obj_SetMark obj h) a = (a = obj \<or> obj_IsMarked h a)"
  "obj_IsOverflowed (obj_SetMark obj h) a = obj_IsOverflowed h a"
  "true_map (obj_SetMark obj h) a = true_map h a"
  "is_map_pointer (map_word (obj_SetMark obj h) a) = is_map_pointer (map_word h a)"
  by (auto simp: obj_SetMark_def obj_IsOverflowed_def [of h] true_map_def [of h])

lemma obj_SetMark_fields [simp]:
  "slot (obj_SetMark obj h) = slot h"
  "marking_stack (obj_SetMark obj h) = marking_stack h"
  "overflowed (obj_SetMark obj h) = overflowed h"
  "target_address (obj_SetMark obj h) = target_address h"
  by (simp_all add: obj_SetMark_def)

lemma SetMark_step:
  assumes wf: "marking_wf M h"
  shows "marking_step M {obj} h ((obj_SetMark obj h)\<lparr>gc_tracer := t\<rparr>)"
proof -
  note w = obj_SetMark_words [where h = h and obj = obj] marking_wfD(1) [OF wf, of obj]
  show ?thesis
  proof (rule marking_stepI)
    show "marking_wf M ((obj_SetMark obj h)\<lparr>gc_tracer := t\<rparr>)"
      using wf by (auto simp add: marking_wf_def w)
  qed (auto simp add: w)
qed

lemma VisitUnmarkedObject_spec: "visit_spec M (VisitUnmarkedObject M n depth)"
proof (induction n arbitrary: depth)
  case 0
  show ?case by (simp add: visit_spec_def)
next
  case (Suc n)
  show ?case
    unfolding visit_spec_def
  proof (intro allI impI)
    fix obj h h'
    assume wf: "marking_wf M h" and un: "\<not> obj_IsMarked h obj"
      and run: "VisitUnmarkedObject M (Suc n) depth obj h = Some h'"
    have plain: "obj_map h obj = true_map h obj"
      using un marking_wfD(3) [OF wf, of obj] by (auto intro: obj_map_plain)
    let ?map = "obj_map h obj"
    let ?h2 = "(obj_SetMark obj h)\<lparr>gc_tracer := increment_marked_count (gc_tracer (obj_SetMark obj h))\<rparr>"
    let ?h3 = "MarkObject M ?map ?h2"
    let ?v = "marking_visitor M (VisitUnmarkedObject M n (Suc depth)) (Suc depth)"
    from run have body: "IterateBody M ?v obj ?h3 = Some h'"
      by (simp add: Let_def)
    have 1: "marking_step M {obj} h ?h2" by (rule SetMark_step [OF wf])
    have m2: "obj_IsMarked ?h2 obj"
      using marking_wfD(1) [OF wf, of obj] by (simp add: obj_SetMark_def)
    note 2 = MarkObject_step [OF marking_stepD(1) [OF 1], of ?map]
    note 3 = IterateBody_step [OF Suc.IH marking_stepD(1) [OF 2(1)] body]
    have 23: "marking_step M {} ?h2 h'" by (rule marking_step_trans [OF 2(1) 3(1)])
    have st: "marking_step M {obj} h h'"
      by (rule marking_step_trans [OF 1 marking_step_mono [OF 23]]) simp
    have "true_map h' obj = ?map"
      using marking_stepD(3) [OF st, of obj] plain by simp
    moreover have "obj_IsMarked h' ?map" by (rule marked_mono [OF 3(1) 2(2)])
    ultimately have "children_marked M h' obj"
      using 3(2) by (simp add: children_marked_def)
    then have "marking_step M {} h h'" by (rule marking_step_discharge [OF st])
    moreover have "obj_IsMarked h' obj" by (rule marked_mono [OF 23 m2])
    ultimately show "marking_step M {} h h' \<and> obj_IsMarked h' obj" by simp
  qed
qed

lemma MarkingVisitor_body:
  assumes wf: "marking_wf M h"
    and run: "IterateBody M (MarkingVisitor M n) obj h = Some h'"
  shows "marking_step M {} h h'" and "\<forall>i \<in> set (body M obj). item_ok M i h'"
  using IterateBody_step [OF VisitUnmarkedObject_spec wf run [unfolded MarkingVisitor_def]]
  by simp_all


subsection \<open>The marking stack\<close>

lemma colour_frame_weak:
  assumes "\<And>a. obj_IsMarked h' a = obj_IsMarked h a" "\<And>a. true_map h' a = true_map h a"
    "slot h' = slot h" "target_address h' = target_address h"
  shows "slot_ok h' = slot_ok h" "target_ok M h' = target_ok M h"
    "item_ok M i h' = item_ok M i h" "children_marked M h' = children_marked M h"
proof -
  show s: "slot_ok h' = slot_ok h" using assms by (simp add: slot_ok_def fun_eq_iff)
  show t: "target_ok M h' = target_ok M h"
    using assms by (simp add: target_ok_def code_of_def fun_eq_iff)
  show i: "item_ok M i h' = item_ok M i h" for i using s t by (simp add: item_ok_def)
  show "children_marked M h' = children_marked M h"
    using assms i by (simp add: children_marked_def fun_eq_iff)
qed

lemma colour_frame:
  assumes "map_word h' = map_word h" "slot h' = slot h" "target_address h' = target_address h"
  shows "obj_IsMarked h' = obj_IsMarked h" "obj_IsOverflowed h' = obj_IsOverflowed h"
    "true_map h' = true_map h" "slot_ok h' = slot_ok h" "target_ok M h' = target_ok M h"
    "item_ok M i h' = item_ok M i h" "children_marked M h' = children_marked M h"
    "marking_stack h' = marking_stack h \<Longrightarrow> marking_wf M h' = marking_wf M h"
proof -
  show m: "obj_IsMarked h' = obj_IsMarked h" "obj_IsOverflowed h' = obj_IsOverflowed h"
    "true_map h' = true_map h"
    using assms by (simp_all add: obj_IsMarked_def obj_IsOverflowed_def true_map_def fun_eq_iff)
  show "slot_ok h' = slot_ok h" "target_ok M h' = target_ok M h"
    "item_ok M i h' = item_ok M i h" "children_marked M h' = children_marked M h"
    using colour_frame_weak [of h' h] m assms by simp_all
  show "marking_stack h' = marking_stack h \<Longrightarrow> marking_wf M h' = marking_wf M h"
    using assms m by (simp add: marking_wf_def)
qed

lemma tricolour_step:
  assumes t: "tricolour M X h" and st: "marking_step M Y h h'"
  shows "tricolour M (X \<union> Y) h'"
  unfolding tricolour_def
proof (intro allI impI)
  fix a assume "obj_IsMarked h' a"
  then have "obj_IsMarked h a \<or> a \<in> Y \<or> is_gray h' a \<or> children_marked M h' a"
    by (rule marking_stepD(10) [OF st])
  moreover have "obj_IsMarked h a \<Longrightarrow> a \<in> X \<or> is_gray h a \<or> children_marked M h a"
    using t by (simp add: tricolour_def)
  ultimately show "a \<in> X \<union> Y \<or> is_gray h' a \<or> children_marked M h' a"
    using is_gray_mono [OF st, of a] children_marked_mono [OF st, of a] by blast
qed

lemma no_hidden_gray_step:
  assumes n: "no_hidden_gray M h" and st: "marking_step M Y h h'"
  shows "no_hidden_gray M h'"
proof (cases "overflowed h'")
  case True
  then show ?thesis by (simp add: no_hidden_gray_def)
next
  case False
  then have "\<not> overflowed h" using marking_stepD(6) [OF st] by blast
  then have "\<not> obj_IsOverflowed h obj" if "obj \<in> set (objects_in M s)" for s obj
    using n that by (auto simp: no_hidden_gray_def)
  then show ?thesis
    using marking_stepD(7) [OF st] False by (auto simp: no_hidden_gray_def)
qed

lemma process_object_invariant:
  assumes wf: "marking_wf M h" and t: "tricolour M X h" and n: "no_hidden_gray M h"
    and run: "process_object M (MarkingVisitor M k) h = Some h'"
  shows "marking_wf M h'" "tricolour M X h'" "no_hidden_gray M h'"
    "obj_IsMarked h a \<Longrightarrow> obj_IsMarked h' a"
proof -
  have "marking_wf M h' \<and> tricolour M X h' \<and> no_hidden_gray M h' \<and>
      (obj_IsMarked h a \<longrightarrow> obj_IsMarked h' a)"
  proof (cases "marking_stack h")
    case Nil
    then show ?thesis using run wf t n by (simp add: process_object_def)
  next
    case (Cons object rest)
    let ?h1 = "h\<lparr>marking_stack := rest\<rparr>"
    let ?map = "true_map h object"
    let ?h2 = "MarkObject M ?map ?h1"
    have e: "map_word ?h1 = map_word h" "slot ?h1 = slot h"
      "target_address ?h1 = target_address h" by simp_all
    note fr = colour_frame [OF e]
    have "\<not> obj_IsOverflowed h object"
      using marking_wfD(5) [OF wf, of object] Cons by simp
    then have "ToMap (ClearMark (map_word h object)) = ?map"
      using marking_wfD(1) [OF wf, of object]
      by (simp add: ToMap_ClearMark true_map_def obj_IsOverflowed_def)
    then have body: "IterateBody M (MarkingVisitor M k) object ?h2 = Some h'"
      using run Cons by (simp add: process_object_def Let_def)
    have wf1: "marking_wf M ?h1" using wf Cons by (auto simp add: marking_wf_def fr)
    have t1: "tricolour M (insert object X) ?h1"
      using t Cons unfolding tricolour_def is_gray_def by (auto simp: fr)
    have n1: "no_hidden_gray M ?h1" using n by (simp add: no_hidden_gray_def fr)
    note 2 = MarkObject_step [OF wf1, of ?map]
    note 3 = MarkingVisitor_body [OF marking_stepD(1) [OF 2(1)] body]
    have st: "marking_step M {} ?h1 h'" by (rule marking_step_trans [OF 2(1) 3(1)])
    have "true_map h' object = ?map"
      using marking_stepD(3) [OF st, of object] by (simp add: fr)
    moreover have "obj_IsMarked h' ?map" by (rule marked_mono [OF 3(1) 2(2)])
    ultimately have c: "children_marked M h' object"
      using 3(2) by (simp add: children_marked_def)
    have "tricolour M (insert object X) h'"
      using tricolour_step [OF t1 st] by simp
    then have "tricolour M X h'"
      using c unfolding tricolour_def by blast
    moreover have "obj_IsMarked h a \<longrightarrow> obj_IsMarked h' a"
      using marked_mono [OF st, of a] by (simp add: fr)
    ultimately show ?thesis
      using marking_stepD(1) [OF st] no_hidden_gray_step [OF n1 st] by simp
  qed
  then show "marking_wf M h'" "tricolour M X h'" "no_hidden_gray M h'"
    "obj_IsMarked h a \<Longrightarrow> obj_IsMarked h' a"
    by simp_all
qed

lemma drain_marking_stack_invariant:
  assumes "marking_wf M h" "tricolour M X h" "no_hidden_gray M h"
    and "drain_marking_stack M (MarkingVisitor M k) n h = Some h'"
  shows "marking_wf M h' \<and> tricolour M X h' \<and> no_hidden_gray M h' \<and> is_empty h' \<and>
         (\<forall>a. obj_IsMarked h a \<longrightarrow> obj_IsMarked h' a)"
  using assms
proof (induction n arbitrary: h)
  case 0
  then show ?case by (simp split: if_splits)
next
  case (Suc n)
  show ?case
  proof (cases "is_empty h")
    case True
    then show ?thesis using Suc.prems by simp
  next
    case False
    then obtain g where g: "process_object M (MarkingVisitor M k) h = Some g"
      and rest: "drain_marking_stack M (MarkingVisitor M k) n g = Some h'"
      using Suc.prems(4) by (cases "process_object M (MarkingVisitor M k) h") simp_all
    note p = process_object_invariant [OF Suc.prems(1-3) g]
    have "marking_wf M h' \<and> tricolour M X h' \<and> no_hidden_gray M h' \<and> is_empty h' \<and>
         (\<forall>a. obj_IsMarked g a \<longrightarrow> obj_IsMarked h' a)"
      by (rule Suc.IH [OF p(1-3) rest])
    then show ?thesis using p(4) by blast
  qed
qed


subsection \<open>Rescanning the spaces\<close>

lemma rescan_stepD:
  assumes "rescan_step h h'"
  shows "obj_IsMarked h' a = obj_IsMarked h a"
    and "true_map h' a = true_map h a"
    and "is_map_pointer (map_word h' a) = is_map_pointer (map_word h a)"
    and "slot h' = slot h" and "target_address h' = target_address h"
    and "obj_IsOverflowed h' a \<Longrightarrow> obj_IsOverflowed h a"
    and "obj_IsOverflowed h a \<Longrightarrow> obj_IsOverflowed h' a \<or> a \<in> set (marking_stack h')"
    and "set (marking_stack h) \<subseteq> set (marking_stack h')"
    and "a \<in> set (marking_stack h') \<Longrightarrow>
         a \<in> set (marking_stack h) \<or> (obj_IsOverflowed h a \<and> \<not> obj_IsOverflowed h' a)"
  using assms by (simp_all add: rescan_step_def)

lemma rescan_step_refl: "rescan_step h h"
  by (simp add: rescan_step_def)

lemma rescan_step_trans:
  assumes a: "rescan_step h h1" and b: "rescan_step h1 h2"
  shows "rescan_step h h2"
  unfolding rescan_step_def
proof (intro conjI allI impI ballI)
  show "obj_IsOverflowed h x \<Longrightarrow> obj_IsOverflowed h2 x \<or> x \<in> set (marking_stack h2)" for x
    using rescan_stepD(7) [OF a, of x] rescan_stepD(7) [OF b, of x] rescan_stepD(8) [OF b]
    by blast
  show "obj_IsOverflowed h2 x \<Longrightarrow> obj_IsOverflowed h x" for x
    using rescan_stepD(6) [OF a, of x] rescan_stepD(6) [OF b, of x] by blast
  show "set (marking_stack h) \<subseteq> set (marking_stack h2)"
    using rescan_stepD(8) [OF a] rescan_stepD(8) [OF b] by blast
  show "x \<in> set (marking_stack h) \<or> (obj_IsOverflowed h x \<and> \<not> obj_IsOverflowed h2 x)"
    if "x \<in> set (marking_stack h2)" for x
    using rescan_stepD(9) [OF b that] rescan_stepD(9) [OF a, of x]
      rescan_stepD(6) [OF a, of x] rescan_stepD(6) [OF b, of x] by blast
qed (simp_all add: rescan_stepD(1-5) [OF a] rescan_stepD(1-5) [OF b])

lemma rescan_step_wf:
  assumes st: "rescan_step h h'" and wf: "marking_wf M h"
  shows "marking_wf M h'"
proof (rule marking_wfI)
  show "is_map_pointer (map_word h' a)" for a
    using marking_wfD(1) [OF wf] by (simp add: rescan_stepD(3) [OF st])
  show "obj_IsOverflowed h' a \<Longrightarrow> obj_IsMarked h' a" for a
    using rescan_stepD(6) [OF st, of a] marking_wfD(3) [OF wf, of a]
    by (simp add: rescan_stepD(1) [OF st])
  show "obj_IsMarked h' a \<and> \<not> obj_IsOverflowed h' a" if "a \<in> set (marking_stack h')" for a
    using rescan_stepD(9) [OF st that] rescan_stepD(6) [OF st, of a]
      marking_wfD(3,4,5) [OF wf, of a]
    by (auto simp add: rescan_stepD(1) [OF st])
  show "obj_IsMarked h' (address (empty_fixed_array M))"
    if "FLAG_cleanup_caches_in_maps_at_gc M" "IsHeapObject (empty_fixed_array M)"
    using marking_wfD(2) [OF wf that] by (simp add: rescan_stepD(1) [OF st])
qed

lemma rescan_step_tricolour:
  assumes st: "rescan_step h h'" and t: "tricolour M X h"
  shows "tricolour M X h'"
proof -
  have c: "children_marked M h' = children_marked M h"
    by (rule colour_frame_weak(4) [OF rescan_stepD(1,2,4,5) [OF st]])
  have "is_gray h a \<Longrightarrow> is_gray h' a" for a
    using rescan_stepD(7) [OF st, of a] rescan_stepD(8) [OF st] unfolding is_gray_def by blast
  then show ?thesis
    using t unfolding tricolour_def by (auto simp: c rescan_stepD(1) [OF st])
qed

lemma obj_ClearOverflow_words:
  "obj_IsMarked (obj_ClearOverflow obj h) a = obj_IsMarked h a"
  "true_map (obj_ClearOverflow obj h) a = true_map h a"
  "is_map_pointer (map_word (obj_ClearOverflow obj h) a) = is_map_pointer (map_word h a)"
  "is_map_pointer (map_word h obj) \<Longrightarrow>
   obj_IsOverflowed (obj_ClearOverflow obj h) a = (a \<noteq> obj \<and> obj_IsOverflowed h a)"
  by (auto simp: obj_ClearOverflow_def obj_IsMarked_def [of h] true_map_def [of h])

lemma obj_ClearOverflow_fields [simp]:
  "slot (obj_ClearOverflow obj h) = slot h"
  "marking_stack (obj_ClearOverflow obj h) = marking_stack h"
  "overflowed (obj_ClearOverflow obj h) = overflowed h"
  "target_address (obj_ClearOverflow obj h) = target_address h"
  "is_full M (obj_ClearOverflow obj h) = is_full M h"
  by (simp_all add: obj_ClearOverflow_def)

lemma VisitOverflowedObject_step:
  assumes wf: "marking_wf M h" and v: "VisitOverflowedObject M obj h = (b, h')"
  shows "rescan_step h h'" and "overflowed h \<Longrightarrow> overflowed h'"
    and "\<not> b \<Longrightarrow> overflowed h'" and "\<not> overflowed h' \<Longrightarrow> \<not> obj_IsOverflowed h' obj"
proof -
  note mp = marking_wfD(1) [OF wf]
  have "rescan_step h h' \<and> (overflowed h \<longrightarrow> overflowed h') \<and> (\<not> b \<longrightarrow> overflowed h') \<and>
      (\<not> overflowed h' \<longrightarrow> \<not> obj_IsOverflowed h' obj)"
  proof (cases "obj_IsOverflowed h obj \<and> \<not> overflowed h")
    case False
    then have "h' = h" "b = (\<not> obj_IsOverflowed h obj)"
      using v by (auto simp: VisitOverflowedObject_def split: if_splits)
    then show ?thesis using False by (auto simp: rescan_step_refl)
  next
    case True
    let ?h1 = "obj_ClearOverflow obj h"
    have eq: "h' = Push M obj ?h1" and b: "b"
      using v True by (auto simp: VisitOverflowedObject_def)
    have mp1: "is_map_pointer (map_word ?h1 obj)" by (simp add: obj_ClearOverflow_words mp)
    have "rescan_step h h'"
      unfolding rescan_step_def eq using True
      by (auto simp: obj_ClearOverflow_words mp Push_overflow [OF mp1] split: if_splits)
    moreover have "\<not> overflowed h' \<longrightarrow> \<not> obj_IsOverflowed h' obj"
      unfolding eq by (simp add: obj_ClearOverflow_words mp Push_overflow [OF mp1])
    ultimately show ?thesis using b True by (simp add: eq)
  qed
  then show "rescan_step h h'" and "overflowed h \<Longrightarrow> overflowed h'"
    and "\<not> b \<Longrightarrow> overflowed h'" and "\<not> overflowed h' \<Longrightarrow> \<not> obj_IsOverflowed h' obj"
    by blast+
qed

lemma scan_loop_step:
  assumes "marking_wf M h"
  shows "rescan_step h (scan_loop M objs h) \<and>
         (overflowed h \<longrightarrow> overflowed (scan_loop M objs h)) \<and>
         (\<not> overflowed (scan_loop M objs h) \<longrightarrow>
            (\<forall>obj \<in> set objs. \<not> obj_IsOverflowed (scan_loop M objs h) obj))"
  using assms
proof (induction objs arbitrary: h)
  case Nil
  then show ?case by (simp add: rescan_step_refl)
next
  case (Cons obj objs)
  obtain b g where v: "VisitOverflowedObject M obj h = (b, g)"
    by (cases "VisitOverflowedObject M obj h")
  note s = VisitOverflowedObject_step [OF Cons.prems v]
  show ?case
  proof (cases b)
    case False
    then have "scan_loop M (obj # objs) h = g" using v by simp
    then show ?thesis using s False by simp
  next
    case True
    let ?h' = "scan_loop M objs g"
    have eq: "scan_loop M (obj # objs) h = ?h'" using v True by simp
    note ih = Cons.IH [OF rescan_step_wf [OF s(1) Cons.prems]]
    have r: "rescan_step g ?h'" using ih by simp
    have "\<not> obj_IsOverflowed ?h' obj" if "\<not> overflowed ?h'"
    proof -
      have "\<not> overflowed g" using ih that by blast
      then have "\<not> obj_IsOverflowed g obj" by (rule s(4))
      then show ?thesis using rescan_stepD(6) [OF r, of obj] by blast
    qed
    then show ?thesis
      unfolding eq using ih s(2) rescan_step_trans [OF s(1) r] by auto
  qed
qed

text \<open>A rescan is one scan of the objects of the five spaces, in their order.\<close>

lemma scan_loop_flagged: "overflowed h \<Longrightarrow> scan_loop M objs h = h"
  by (induction objs) (simp_all add: VisitOverflowedObject_def)

lemma scan_loop_append: "scan_loop M (xs @ ys) h = scan_loop M ys (scan_loop M xs h)"
proof (induction xs arbitrary: h)
  case Nil
  show ?case by simp
next
  case (Cons x xs)
  show ?case
  proof (cases "obj_IsOverflowed h x \<and> overflowed h")
    case True
    then show ?thesis by (simp add: VisitOverflowedObject_def scan_loop_flagged)
  next
    case False
    then show ?thesis using Cons.IH by (auto simp add: VisitOverflowedObject_def)
  qed
qed

lemma refill_marking_stack_scan:
  "refill_marking_stack M h = scan_loop M (objects_in_rescan_order M) (clear_overflowed h)"
  by (simp add: refill_marking_stack_def objects_in_rescan_order_def rescan_order_def Let_def
      ScanOverflowedObjects_def scan_loop_append scan_loop_flagged)

lemma clear_overflowed_step: "rescan_step h (clear_overflowed h)"
  by (simp add: rescan_step_def clear_overflowed_def)

lemma in_rescan_order: "obj \<in> set (objects_in M s) \<Longrightarrow> obj \<in> set (objects_in_rescan_order M)"
  by (cases s) (simp_all add: objects_in_rescan_order_def rescan_order_def)

lemma refill_marking_stack_step:
  assumes wf: "marking_wf M h"
  shows "rescan_step h (refill_marking_stack M h)"
    and "\<not> overflowed (refill_marking_stack M h) \<Longrightarrow> obj \<in> set (objects_in M s) \<Longrightarrow>
         \<not> obj_IsOverflowed (refill_marking_stack M h) obj"
proof -
  note wf0 = rescan_step_wf [OF clear_overflowed_step wf]
  note s = scan_loop_step [OF wf0, of "objects_in_rescan_order M"]
  show "rescan_step h (refill_marking_stack M h)"
    unfolding refill_marking_stack_scan
    using rescan_step_trans [OF clear_overflowed_step] s by blast
  show "\<not> overflowed (refill_marking_stack M h) \<Longrightarrow> obj \<in> set (objects_in M s) \<Longrightarrow>
         \<not> obj_IsOverflowed (refill_marking_stack M h) obj"
    unfolding refill_marking_stack_scan using s in_rescan_order by blast
qed

lemma refill_marking_stack_no_hidden:
  "marking_wf M h \<Longrightarrow> no_hidden_gray M (refill_marking_stack M h)"
  unfolding no_hidden_gray_def using refill_marking_stack_step(2) by blast

lemma ProcessMarkingStack_invariant:
  assumes "marking_wf M h" "tricolour M X h" "no_hidden_gray M h"
    and "ProcessMarkingStack M (MarkingVisitor M k) n h = Some h'"
  shows "marking_wf M h' \<and> tricolour M X h' \<and> no_hidden_gray M h' \<and> is_empty h' \<and>
         \<not> overflowed h' \<and> (\<forall>a. obj_IsMarked h a \<longrightarrow> obj_IsMarked h' a)"
  using assms
proof (induction n arbitrary: h)
  case 0
  then show ?case by simp
next
  case (Suc n)
  from Suc.prems(4) obtain h1 where
    d: "drain_marking_stack M (MarkingVisitor M k) n h = Some h1"
    and rest: "(if \<not> overflowed h1 then Some h1
        else ProcessMarkingStack M (MarkingVisitor M k) n (refill_marking_stack M h1)) = Some h'"
    by (cases "drain_marking_stack M (MarkingVisitor M k) n h") simp_all
  note i = drain_marking_stack_invariant [OF Suc.prems(1-3) d]
  show ?case
  proof (cases "overflowed h1")
    case False
    then have "h' = h1" using rest by simp
    then show ?thesis using i False by simp
  next
    case True
    let ?h2 = "refill_marking_stack M h1"
    have run: "ProcessMarkingStack M (MarkingVisitor M k) n ?h2 = Some h'"
      using rest True by simp
    have wf1: "marking_wf M h1" using i by simp
    note r = refill_marking_stack_step(1) [OF wf1]
    have "marking_wf M h' \<and> tricolour M X h' \<and> no_hidden_gray M h' \<and> is_empty h' \<and>
         \<not> overflowed h' \<and> (\<forall>a. obj_IsMarked ?h2 a \<longrightarrow> obj_IsMarked h' a)"
      by (rule Suc.IH [OF rescan_step_wf [OF r wf1] rescan_step_tricolour [OF r]
            refill_marking_stack_no_hidden [OF wf1] run]) (use i in simp)
    then show ?thesis using i rescan_stepD(1) [OF r] by simp
  qed
qed

text \<open>
  What a scan leaves on the stack: the overflowed objects in the order of the scan, as
  many as the stack has room for; the others are overflowed still, and the flag is set
  if there are any.
\<close>

lemma VisitOverflowedObject_skip:
  "\<not> obj_IsOverflowed h obj \<Longrightarrow> VisitOverflowedObject M obj h = (True, h)"
  by (simp add: VisitOverflowedObject_def)

lemma VisitOverflowedObject_full:
  assumes mp: "is_map_pointer (map_word h obj)"
    and ov: "obj_IsOverflowed h obj" and flag: "\<not> overflowed h" and full: "is_full M h"
  shows "VisitOverflowedObject M obj h = (True, h\<lparr>overflowed := True\<rparr>)"
proof -
  obtain m b c where w: "map_word h obj = MapPointer m b c"
    using mp by (cases "map_word h obj") simp_all
  have "SetOverflow (ClearOverflow (map_word h obj)) = map_word h obj"
    using ov w by (simp add: obj_IsOverflowed_def)
  then have "(map_word h)(obj := SetOverflow (ClearOverflow (map_word h obj))) = map_word h"
    by (simp add: fun_eq_iff)
  then have "set_map_word obj (SetOverflow (ClearOverflow (map_word h obj))) h = h"
    by (simp add: set_map_word_def)
  then show ?thesis
    using ov flag full
    by (simp add: VisitOverflowedObject_def Push_def obj_SetOverflow_def obj_ClearOverflow_def
        set_map_word_def is_full_def)
qed

lemma VisitOverflowedObject_push:
  assumes ov: "obj_IsOverflowed h obj" and flag: "\<not> overflowed h" and full: "\<not> is_full M h"
  shows "VisitOverflowedObject M obj h =
      (True, (obj_ClearOverflow obj h)\<lparr>marking_stack := obj # marking_stack h\<rparr>)"
  using assms by (simp add: VisitOverflowedObject_def Push_def obj_ClearOverflow_def
      set_map_word_def is_full_def)


lemma pushed_simps [simp]:
  "obj_IsOverflowed ((obj_ClearOverflow obj h)\<lparr>marking_stack := st\<rparr>) a =
     obj_IsOverflowed (obj_ClearOverflow obj h) a"
  "room M (h\<lparr>overflowed := b\<rparr>) = room M h"
  "obj_IsOverflowed (h\<lparr>overflowed := b\<rparr>) = obj_IsOverflowed h"
  by (simp_all add: room_def)

lemma scan_loop_stack:
  assumes "marking_wf M h" "\<not> overflowed h" "distinct objs"
  shows "marking_stack (scan_loop M objs h) =
           rev (take (room M h) (filter (obj_IsOverflowed h) objs)) @ marking_stack h \<and>
         overflowed (scan_loop M objs h) =
           (room M h < length (filter (obj_IsOverflowed h) objs)) \<and>
         (\<forall>a. obj_IsOverflowed (scan_loop M objs h) a =
           (obj_IsOverflowed h a \<and>
            a \<notin> set (take (room M h) (filter (obj_IsOverflowed h) objs))))"
  using assms
proof (induction objs arbitrary: h)
  case Nil
  then show ?case by simp
next
  case (Cons obj objs)
  note mp = marking_wfD(1) [OF Cons.prems(1)]
  have d: "obj \<notin> set objs" "distinct objs" using Cons.prems(3) by simp_all
  show ?case
  proof (cases "obj_IsOverflowed h obj")
    case False
    then have eq: "scan_loop M (obj # objs) h = scan_loop M objs h"
      by (simp add: VisitOverflowedObject_skip)
    have f: "filter (obj_IsOverflowed h) (obj # objs) = filter (obj_IsOverflowed h) objs"
      using False by simp
    show ?thesis
      unfolding eq f by (rule Cons.IH [OF Cons.prems(1,2) d(2)])
  next
    case ov: True
    have f: "filter (obj_IsOverflowed h) (obj # objs) = obj # filter (obj_IsOverflowed h) objs"
      using ov by simp
    show ?thesis
    proof (cases "is_full M h")
      case True
      let ?g = "h\<lparr>overflowed := True\<rparr>"
      have eq: "scan_loop M (obj # objs) h = ?g"
        by (simp add: VisitOverflowedObject_full [OF mp ov Cons.prems(2) True] scan_loop_flagged)
      have r: "room M h = 0" using True by (simp add: room_def is_full_def)
      show ?thesis unfolding eq f r by simp
    next
      case False
      let ?g = "(obj_ClearOverflow obj h)\<lparr>marking_stack := obj # marking_stack h\<rparr>"
      have v: "VisitOverflowedObject M obj h = (True, ?g)"
        by (rule VisitOverflowedObject_push [OF ov Cons.prems(2) False])
      have eq: "scan_loop M (obj # objs) h = scan_loop M objs ?g"
        by (simp add: v)
      have wfg: "marking_wf M ?g"
        by (rule rescan_step_wf [OF VisitOverflowedObject_step(1) [OF Cons.prems(1) v] Cons.prems(1)])
      have flag: "\<not> overflowed ?g" using Cons.prems(2) by simp
      have bits: "obj_IsOverflowed ?g a = (a \<noteq> obj \<and> obj_IsOverflowed h a)" for a
        by (simp add: obj_ClearOverflow_words mp)
      obtain r where r: "room M h = Suc r" "room M ?g = r"
        using False by (cases "room M h") (simp_all add: room_def is_full_def)
      have fg: "filter (obj_IsOverflowed ?g) objs = filter (obj_IsOverflowed h) objs"
        using d(1) by (intro filter_cong) (auto simp add: obj_ClearOverflow_words mp)
      let ?os = "filter (obj_IsOverflowed h) objs"
      note ih = Cons.IH [OF wfg flag d(2), unfolded fg r(2)]
      have 1: "marking_stack (scan_loop M objs ?g) = rev (take r ?os) @ obj # marking_stack h"
        using ih by simp
      have 2: "overflowed (scan_loop M objs ?g) = (r < length ?os)"
        using ih by simp
      have 3: "obj_IsOverflowed (scan_loop M objs ?g) a =
          (a \<noteq> obj \<and> obj_IsOverflowed h a \<and> a \<notin> set (take r ?os))" for a
        using ih bits [of a] by blast
      show ?thesis
        unfolding eq f r(1) by (simp add: 1 2 3) blast
    qed
  qed
qed


lemma refill_marking_stack_stack:
  assumes wf: "marking_wf M h" and d: "distinct (objects_in_rescan_order M)"
  shows "marking_stack (refill_marking_stack M h) =
           rev (take (room M h) (filter (obj_IsOverflowed h) (objects_in_rescan_order M))) @
           marking_stack h"
    and "overflowed (refill_marking_stack M h) =
           (room M h < length (filter (obj_IsOverflowed h) (objects_in_rescan_order M)))"
    and "obj_IsOverflowed (refill_marking_stack M h) a =
           (obj_IsOverflowed h a \<and>
            a \<notin> set (take (room M h) (filter (obj_IsOverflowed h) (objects_in_rescan_order M))))"
proof -
  let ?h0 = "clear_overflowed h"
  have e: "obj_IsOverflowed ?h0 = obj_IsOverflowed h" "room M ?h0 = room M h"
    "marking_stack ?h0 = marking_stack h" "\<not> overflowed ?h0"
    by (simp_all add: clear_overflowed_def room_def)
  note s = scan_loop_stack [OF rescan_step_wf [OF clear_overflowed_step wf] e(4) d,
      unfolded e(1-3), folded refill_marking_stack_scan]
  show "marking_stack (refill_marking_stack M h) =
           rev (take (room M h) (filter (obj_IsOverflowed h) (objects_in_rescan_order M))) @
           marking_stack h"
    and "overflowed (refill_marking_stack M h) =
           (room M h < length (filter (obj_IsOverflowed h) (objects_in_rescan_order M)))"
    and "obj_IsOverflowed (refill_marking_stack M h) a =
           (obj_IsOverflowed h a \<and>
            a \<notin> set (take (room M h) (filter (obj_IsOverflowed h) (objects_in_rescan_order M))))"
    using s by blast+
qed

subsection \<open>The work that is left\<close>

lemma finite_heap_objects [simp]: "finite (heap_objects M)"
  by (simp add: heap_objects_def)

lemma sum_update:
  fixes f f' :: "address \<Rightarrow> nat"
  assumes "finite U" "obj \<in> U" "\<And>a. a \<noteq> obj \<Longrightarrow> f' a = f a"
  shows "sum f' U + f obj = sum f U + f' obj"
proof -
  have "sum f' (U - {obj}) = sum f (U - {obj})"
    by (rule sum.cong) (use assms(3) in auto)
  then show ?thesis
    using sum.remove [OF assms(1,2), of f] sum.remove [OF assms(1,2), of f'] by simp
qed

lemma rank_cong:
  "obj_IsMarked h' a = obj_IsMarked h a \<Longrightarrow> obj_IsOverflowed h' a = obj_IsOverflowed h a \<Longrightarrow>
   rank h' a = rank h a"
  by (simp add: rank_def)

lemma weight_step:
  assumes "obj \<in> heap_objects M" and "\<And>a. a \<noteq> obj \<Longrightarrow> rank h' a = rank h a"
  shows "weight M h' + rank h obj + length (marking_stack h) =
         weight M h + rank h' obj + length (marking_stack h')"
  using sum_update [OF finite_heap_objects assms(1), of "rank h'" "rank h"] assms(2)
  by (simp add: weight_def)

lemma rank_eq:
  "obj_IsMarked h' = obj_IsMarked h \<Longrightarrow> obj_IsOverflowed h' = obj_IsOverflowed h \<Longrightarrow>
   rank h' = rank h"
  by (simp add: rank_def fun_eq_iff)

lemma weight_same:
  assumes "\<And>a. rank h' a = rank h a" and "marking_stack h' = marking_stack h"
  shows "weight M h' = weight M h"
  using assms by (simp add: weight_def)

lemma whites_mono:
  assumes "\<And>a. obj_IsMarked h a \<Longrightarrow> obj_IsMarked h' a"
  shows "whites M h' \<le> whites M h"
  unfolding whites_def by (rule card_mono) (use assms in auto)

lemma whites_less:
  assumes "\<And>a. obj_IsMarked h a \<Longrightarrow> obj_IsMarked h' a"
    and "obj \<in> heap_objects M" "\<not> obj_IsMarked h obj" "obj_IsMarked h' obj"
  shows "whites M h' < whites M h"
  unfolding whites_def by (rule psubset_card_mono) (use assms in auto)

lemma heap_closedD:
  assumes "heap_closed M h"
  shows "obj_IsMarked h a \<Longrightarrow> a \<in> heap_objects M"
    and "a \<in> heap_objects M \<Longrightarrow> true_map h a \<in> heap_objects M"
    and "IsHeapObject (slot h p) \<Longrightarrow> address (slot h p) \<in> heap_objects M"
    and "FLAG_cleanup_caches_in_maps_at_gc M \<Longrightarrow>
         IsHeapObject (empty_fixed_array M) \<and> address (empty_fixed_array M) \<in> heap_objects M"
    and "a \<in> heap_objects M \<Longrightarrow> reads_as_cons_string M h a \<Longrightarrow>
         IsHeapObject (slot h (first_slot M a))"
    and "a \<in> heap_objects M \<Longrightarrow> i \<in> set (body M a) \<Longrightarrow> r \<in> item_targets i \<Longrightarrow>
         \<not> compacting M \<and> \<not> FLAG_cleanup_ics_at_gc M \<and>
         CodeFromDerivedPointer M (target_address h r) \<in> heap_objects M"
  using assms unfolding heap_closed_def by blast+

lemma heap_closed_step:
  assumes c: "heap_closed M h"
    and m: "\<And>a. obj_IsMarked h' a \<Longrightarrow> obj_IsMarked h a \<or> a \<in> heap_objects M"
    and t: "\<And>a. true_map h' a = true_map h a"
    and s: "\<And>p. slot h' p = slot h p \<or>
              (IsHeapObject (slot h' p) \<and> address (slot h' p) \<in> heap_objects M)"
    and r: "\<not> compacting M \<Longrightarrow> \<not> FLAG_cleanup_ics_at_gc M \<Longrightarrow>
            target_address h' = target_address h"
  shows "heap_closed M h'"
  unfolding heap_closed_def
proof (intro conjI allI impI ballI)
  show "a \<in> heap_objects M" if "obj_IsMarked h' a" for a
    using m [OF that] heap_closedD(1) [OF c] by blast
  show "true_map h' a \<in> heap_objects M" if "a \<in> heap_objects M" for a
    using heap_closedD(2) [OF c that] by (simp add: t)
  show "address (slot h' p) \<in> heap_objects M" if "IsHeapObject (slot h' p)" for p
    using s [of p] that heap_closedD(3) [OF c, of p] by auto
  show "IsHeapObject (empty_fixed_array M)" "address (empty_fixed_array M) \<in> heap_objects M"
    if "FLAG_cleanup_caches_in_maps_at_gc M"
    using heap_closedD(4) [OF c that] by simp_all
  show "IsHeapObject (slot h' (first_slot M a))"
    if "a \<in> heap_objects M" "reads_as_cons_string M h' a" for a
  proof -
    have "reads_as_cons_string M h a" using that(2) by (simp add: reads_as_cons_string_def t)
    then show ?thesis
      using heap_closedD(5) [OF c that(1)] s [of "first_slot M a"] by auto
  qed
  show "\<not> compacting M" "\<not> FLAG_cleanup_ics_at_gc M"
    "CodeFromDerivedPointer M (target_address h' r') \<in> heap_objects M"
    if "a \<in> heap_objects M" "i \<in> set (body M a)" "r' \<in> item_targets i" for a i r'
    using heap_closedD(6) [OF c that] r by auto
qed

lemma advanceD:
  assumes "advance M h h'"
  shows "marking_wf M h'" and "heap_closed M h'"
    and "obj_IsMarked h a \<Longrightarrow> obj_IsMarked h' a"
    and "weight M h' \<le> weight M h" and "whites M h' \<le> whites M h"
  using assms whites_mono [of h h' M] by (simp_all add: advance_def)

lemma advanceI:
  assumes "marking_wf M h'" and "heap_closed M h'"
    and "\<And>a. obj_IsMarked h a \<Longrightarrow> obj_IsMarked h' a"
    and "weight M h' \<le> weight M h"
  shows "advance M h h'"
  using assms by (simp add: advance_def)

lemma advance_refl: "marking_wf M h \<Longrightarrow> heap_closed M h \<Longrightarrow> advance M h h"
  by (simp add: advance_def)

lemma advance_trans: "advance M h g \<Longrightarrow> advance M g h' \<Longrightarrow> advance M h h'"
  by (auto simp add: advance_def)


subsection \<open>Marking one object takes work away\<close>

lemma MarkUnmarkedObject_advance:
  assumes wf: "marking_wf M h" and c: "heap_closed M h"
    and obj: "obj \<in> heap_objects M" and un: "\<not> obj_IsMarked h obj"
  shows "advance M h (MarkUnmarkedObject M obj h)"
    and "weight M (MarkUnmarkedObject M obj h) < weight M h"
proof -
  let ?h = "MarkUnmarkedObject M obj h"
  note w = MarkUnmarkedObject_words [OF marking_wfD(1) [OF wf, of obj], of M]
  note f = MarkUnmarkedObject_fields [of M obj h]
  have no: "\<not> obj_IsOverflowed h obj" using un marking_wfD(3) [OF wf, of obj] by blast
  have r: "rank ?h a = rank h a" if "a \<noteq> obj" for a
    using that by (simp add: rank_def w)
  have "rank h obj = 3" using un by (simp add: rank_def)
  moreover have "rank ?h obj + length (marking_stack ?h) \<le> 2 + length (marking_stack h)"
    using no by (simp add: rank_def w f)
  ultimately show less: "weight M ?h < weight M h"
    using weight_step [OF obj r] by simp
  have cl: "heap_closed M ?h"
  proof (rule heap_closed_step [OF c])
    show "obj_IsMarked ?h a \<Longrightarrow> obj_IsMarked h a \<or> a \<in> heap_objects M" for a
      using obj by (auto simp add: w)
    show "true_map ?h a = true_map h a" for a by (simp add: f)
    show "slot ?h p = slot h p \<or> (IsHeapObject (slot ?h p) \<and> address (slot ?h p) \<in> heap_objects M)"
      for p
      using heap_closedD(4) [OF c] by (simp add: f)
    show "target_address ?h = target_address h" by (simp add: f)
  qed
  show "advance M h ?h"
    using marking_stepD(1) [OF MarkUnmarkedObject_step [OF wf un]] cl less
    by (intro advanceI) (simp_all add: w)
qed

lemma MarkObject_advance:
  assumes wf: "marking_wf M h" and c: "heap_closed M h" and obj: "obj \<in> heap_objects M"
  shows "advance M h (MarkObject M obj h)"
  using MarkUnmarkedObject_advance(1) [OF wf c obj] advance_refl [OF wf c]
  by (simp add: MarkObject_def)

lemma slot_write_advance:
  assumes wf: "marking_wf M h" and c: "heap_closed M h"
    and v: "IsHeapObject v" "address v \<in> heap_objects M"
  shows "advance M h (h\<lparr>slot := (slot h)(p := v)\<rparr>)"
proof (rule advanceI)
  show "heap_closed M (h\<lparr>slot := (slot h)(p := v)\<rparr>)"
    by (rule heap_closed_step [OF c]) (use v in simp_all)
  have "weight M (h\<lparr>slot := (slot h)(p := v)\<rparr>) = weight M h"
    by (rule weight_same) (simp_all add: rank_def)
  then show "weight M (h\<lparr>slot := (slot h)(p := v)\<rparr>) \<le> weight M h" by simp
qed (use wf in simp_all)

lemma is_flat_cons_string_reads:
  assumes "is_map_pointer (map_word h a)" "is_flat_cons_string M h a"
  shows "reads_as_cons_string M h a"
  using assms
  by (auto simp add: is_flat_cons_string_def reads_as_cons_string_def Let_def ToMap_ClearMark
      true_map_def split: if_splits)

lemma MarkObjectByPointer_advance:
  assumes wf: "marking_wf M h" and c: "heap_closed M h"
  shows "advance M h (MarkObjectByPointer M p h)"
proof (cases "IsHeapObject (slot h p)")
  case False
  then show ?thesis using advance_refl [OF wf c] by (simp add: MarkObjectByPointer_def)
next
  case heap: True
  let ?obj = "slot h p"
  let ?first = "slot h (first_slot M (address ?obj))"
  have obj: "address ?obj \<in> heap_objects M" by (rule heap_closedD(3) [OF c heap])
  show ?thesis
  proof (cases "is_flat_cons_string M h (address ?obj) \<and>
      (InNewSpace M ?obj \<or> \<not> InNewSpace M ?first)")
    case True
    let ?h1 = "h\<lparr>slot := (slot h)(p := ?first)\<rparr>"
    have eq: "MarkObjectByPointer M p h = MarkObject M (address ?first) ?h1"
      using heap True by (simp add: MarkObjectByPointer_def Let_def)
    have "reads_as_cons_string M h (address ?obj)"
      using True is_flat_cons_string_reads [OF marking_wfD(1) [OF wf]] by blast
    then have first: "IsHeapObject ?first" by (rule heap_closedD(5) [OF c obj])
    note f = heap_closedD(3) [OF c first]
    note 1 = slot_write_advance [OF wf c first f, of p]
    note 2 = MarkObject_advance [OF advanceD(1,2) [OF 1] f]
    show ?thesis unfolding eq by (rule advance_trans [OF 1 2])
  next
    case False
    then have eq: "MarkObjectByPointer M p h = MarkObject M (address ?obj) h"
      using heap by (auto simp add: MarkObjectByPointer_def Let_def)
    show ?thesis unfolding eq by (rule MarkObject_advance [OF wf c obj])
  qed
qed

lemma fold_MarkObjectByPointer_advance:
  "marking_wf M h \<Longrightarrow> heap_closed M h \<Longrightarrow> advance M h (fold (MarkObjectByPointer M) ps h)"
proof (induction ps arbitrary: h)
  case Nil
  then show ?case by (simp add: advance_refl)
next
  case (Cons p ps)
  note 1 = MarkObjectByPointer_advance [OF Cons.prems, of p]
  note 2 = Cons.IH [OF advanceD(1,2) [OF 1]]
  show ?case using advance_trans [OF 1 2] by simp
qed

lemma for_each_advance:
  assumes f: "\<And>x g. x \<in> set xs \<Longrightarrow> marking_wf M g \<Longrightarrow> heap_closed M g \<Longrightarrow> whites M g \<le> n \<Longrightarrow>
        \<exists>g'. f x g = Some g' \<and> advance M g g'"
    and wf: "marking_wf M h" and c: "heap_closed M h" and n: "whites M h \<le> n"
  shows "\<exists>h'. for_each f xs h = Some h' \<and> advance M h h'"
  using f wf c n
proof (induction xs arbitrary: h)
  case Nil
  then show ?case by (simp add: advance_refl)
next
  case (Cons x xs)
  obtain g where g: "f x h = Some g" "advance M h g"
    using Cons.prems(1) [of x h] Cons.prems(2-4) by auto
  have n: "whites M g \<le> n" using advanceD(5) [OF g(2)] Cons.prems(4) by simp
  obtain h' where h': "for_each f xs g = Some h'" "advance M g h'"
    using Cons.IH [OF _ advanceD(1,2) [OF g(2)] n] Cons.prems(1) by auto
  show ?case using g h' advance_trans [OF g(2) h'(2)] by simp
qed

lemma visit_totalD:
  assumes "visit_total M n visit" "marking_wf M h" "heap_closed M h" "whites M h \<le> n"
    "obj \<in> heap_objects M" "\<not> obj_IsMarked h obj"
  shows "\<exists>h'. visit obj h = Some h' \<and> advance M h h'"
  using assms unfolding visit_total_def by blast

lemma VisitUnmarkedObjects_advance:
  assumes tv: "visit_total M n visit"
    and wf: "marking_wf M h" and c: "heap_closed M h" and n: "whites M h \<le> n"
  shows "\<exists>b h'. VisitUnmarkedObjects M visit depth start end' h = Some (b, h') \<and>
           advance M h h'"
proof (cases "HasOverflowed M depth")
  case True
  then show ?thesis using advance_refl [OF wf c] by (auto simp add: VisitUnmarkedObjects_def)
next
  case False
  let ?f = "\<lambda>p g. if \<not> IsHeapObject (slot g p) then Some g
                   else if obj_IsMarked g (address (slot g p)) then Some g
                   else visit (address (slot g p)) g"
  have "\<exists>h'. for_each ?f [start..end' - 1] h = Some h' \<and> advance M h h'"
  proof (rule for_each_advance [OF _ wf c n])
    fix p g
    assume g: "marking_wf M g" "heap_closed M g" "whites M g \<le> n"
    show "\<exists>g'. ?f p g = Some g' \<and> advance M g g'"
    proof (cases "\<not> IsHeapObject (slot g p) \<or> obj_IsMarked g (address (slot g p))")
      case True
      then show ?thesis using advance_refl [OF g(1,2)] by auto
    next
      case False
      then have "address (slot g p) \<in> heap_objects M" using heap_closedD(3) [OF g(2)] by blast
      then show ?thesis using visit_totalD [OF tv g] False by simp
    qed
  qed
  then show ?thesis using False by (auto simp add: VisitUnmarkedObjects_def)
qed

lemma marking_VisitPointers_advance:
  assumes tv: "visit_total M n visit"
    and wf: "marking_wf M h" and c: "heap_closed M h" and n: "whites M h \<le> n"
  shows "\<exists>h'. marking_VisitPointers M visit depth start end' h = Some h' \<and> advance M h h'"
proof (cases "kMinRangeForMarkingRecursion \<le> end' - start")
  case False
  then show ?thesis
    using fold_MarkObjectByPointer_advance [OF wf c] by (simp add: marking_VisitPointers_def)
next
  case True
  obtain b g where v: "VisitUnmarkedObjects M visit depth start end' h = Some (b, g)"
    and a: "advance M h g"
    using VisitUnmarkedObjects_advance [OF tv wf c n] by blast
  show ?thesis
  proof (cases b)
    case True
    then show ?thesis
      using v a \<open>kMinRangeForMarkingRecursion \<le> end' - start\<close>
      by (simp add: marking_VisitPointers_def)
  next
    case False
    have "advance M h (fold (MarkObjectByPointer M) [start..end' - 1] g)"
      by (rule advance_trans [OF a fold_MarkObjectByPointer_advance [OF advanceD(1,2) [OF a]]])
    then show ?thesis
      using v False \<open>kMinRangeForMarkingRecursion \<le> end' - start\<close>
      by (simp add: marking_VisitPointers_def)
  qed
qed


lemma frame_advance:
  assumes wf: "marking_wf M h" and c: "heap_closed M h"
    and eq: "map_word h' = map_word h" "slot h' = slot h" "target_address h' = target_address h"
      "marking_stack h' = marking_stack h"
  shows "advance M h h'"
proof -
  note fr = colour_frame(1-3) [OF eq(1-3)]
  show ?thesis
  proof (rule advanceI)
    show "marking_wf M h'" using wf by (simp add: marking_wf_def fr eq)
    show "heap_closed M h'" by (rule heap_closed_step [OF c]) (simp_all add: fr eq)
    show "weight M h' \<le> weight M h" by (simp add: weight_def rank_eq [OF fr(1,2)] eq)
  qed (simp add: fr)
qed

lemma visit_item_advance:
  assumes tv: "visit_total M n visit"
    and wf: "marking_wf M h" and c: "heap_closed M h" and n: "whites M h \<le> n"
    and i: "\<forall>r \<in> item_targets i. \<not> compacting M \<and> \<not> FLAG_cleanup_ics_at_gc M \<and>
              CodeFromDerivedPointer M (target_address h r) \<in> heap_objects M"
  shows "\<exists>h'. visit_item (marking_visitor M visit depth) i h = Some h' \<and> advance M h h'"
proof (cases i)
  case (Pointer p)
  then show ?thesis
    using MarkObjectByPointer_advance [OF wf c, of p] by (simp add: marking_visitor_def)
next
  case (Pointers s e)
  then show ?thesis
    using marking_VisitPointers_advance [OF tv wf c n, of depth s e]
    by (simp add: marking_visitor_def)
next
  case (CodeTarget r)
  then have "marking_VisitCodeTarget M r h =
      MarkObject M (CodeFromDerivedPointer M (target_address h r)) h"
    using i by (simp add: marking_VisitCodeTarget_def Let_def)
  then show ?thesis
    using CodeTarget i MarkObject_advance [OF wf c] by (simp add: marking_visitor_def)
next
  case (DebugTarget r)
  then have "marking_VisitDebugTarget M r h =
      MarkObject M (CodeFromDerivedPointer M (target_address h r)) h"
    using i by (simp add: marking_VisitDebugTarget_def Let_def)
  then show ?thesis
    using DebugTarget i MarkObject_advance [OF wf c] by (simp add: marking_visitor_def)
next
  case (BeginCode code)
  then show ?thesis using advance_refl [OF wf c] by (simp add: marking_visitor_def)
next
  case (EndCode code)
  have "advance M h (marking_EndCodeIteration M code h)"
    by (rule frame_advance [OF wf c]) (simp_all add: marking_EndCodeIteration_def)
  then show ?thesis using EndCode by (simp add: marking_visitor_def)
qed

lemma advance_targets:
  assumes a: "advance M h h'" and c: "heap_closed M h"
    and obj: "obj \<in> heap_objects M" "i \<in> set (body M obj)"
  shows "\<forall>r \<in> item_targets i. \<not> compacting M \<and> \<not> FLAG_cleanup_ics_at_gc M \<and>
           CodeFromDerivedPointer M (target_address h' r) \<in> heap_objects M"
  using heap_closedD(6) [OF advanceD(2) [OF a] obj] by blast

lemma IterateBody_advance:
  assumes tv: "visit_total M n visit"
    and wf: "marking_wf M h" and c: "heap_closed M h" and n: "whites M h \<le> n"
    and obj: "obj \<in> heap_objects M"
  shows "\<exists>h'. IterateBody M (marking_visitor M visit depth) obj h = Some h' \<and> advance M h h'"
  unfolding IterateBody_def
proof (rule for_each_advance [OF _ wf c n])
  fix i g
  assume i: "i \<in> set (body M obj)" and g: "marking_wf M g" "heap_closed M g" "whites M g \<le> n"
  show "\<exists>g'. visit_item (marking_visitor M visit depth) i g = Some g' \<and> advance M g g'"
    by (rule visit_item_advance [OF tv g]) (use heap_closedD(6) [OF g(2) obj i] in blast)
qed

lemma SetMark_advance:
  assumes wf: "marking_wf M h" and c: "heap_closed M h"
    and obj: "obj \<in> heap_objects M" and un: "\<not> obj_IsMarked h obj"
  shows "advance M h ((obj_SetMark obj h)\<lparr>gc_tracer := t\<rparr>)"
    and "whites M ((obj_SetMark obj h)\<lparr>gc_tracer := t\<rparr>) < whites M h"
proof -
  let ?h = "(obj_SetMark obj h)\<lparr>gc_tracer := t\<rparr>"
  note w = obj_SetMark_words [where h = h and obj = obj] marking_wfD(1) [OF wf, of obj]
  have r: "rank ?h a = rank h a" if "a \<noteq> obj" for a
    using that by (simp add: rank_def w)
  have "rank ?h obj \<le> rank h obj" using un by (simp add: rank_def)
  then have le: "weight M ?h \<le> weight M h"
    using weight_step [OF obj r] by simp
  have cl: "heap_closed M ?h"
    by (rule heap_closed_step [OF c]) (use obj in \<open>auto simp add: w\<close>)
  show "advance M h ?h"
    using marking_stepD(1) [OF SetMark_step [OF wf, of obj t]] cl le
    by (intro advanceI) (simp_all add: w)
  show "whites M ?h < whites M h"
    by (rule whites_less [OF _ obj un]) (simp_all add: w)
qed

lemma VisitUnmarkedObject_total: "visit_total M n (VisitUnmarkedObject M n depth)"
proof (induction n arbitrary: depth)
  case 0
  have "0 < whites M h" if "obj \<in> heap_objects M" "\<not> obj_IsMarked h obj" for obj h
    unfolding whites_def using that by (auto simp add: card_gt_0_iff)
  then show ?case unfolding visit_total_def by fastforce
next
  case (Suc n)
  show ?case
    unfolding visit_total_def
  proof (intro allI impI)
    fix obj h
    assume wf: "marking_wf M h" and c: "heap_closed M h" and n: "whites M h \<le> Suc n"
      and obj: "obj \<in> heap_objects M" and un: "\<not> obj_IsMarked h obj"
    have plain: "obj_map h obj = true_map h obj"
      using un marking_wfD(3) [OF wf, of obj] by (auto intro: obj_map_plain)
    let ?h2 = "(obj_SetMark obj h)\<lparr>gc_tracer := increment_marked_count (gc_tracer (obj_SetMark obj h))\<rparr>"
    let ?h3 = "MarkObject M (obj_map h obj) ?h2"
    let ?v = "marking_visitor M (VisitUnmarkedObject M n (Suc depth)) (Suc depth)"
    note 1 = SetMark_advance [OF wf c obj un, of "increment_marked_count (gc_tracer (obj_SetMark obj h))"]
    have "obj_map h obj \<in> heap_objects M" using heap_closedD(2) [OF c obj] plain by simp
    note 2 = MarkObject_advance [OF advanceD(1,2) [OF 1(1)] this]
    have "whites M ?h3 \<le> n" using advanceD(5) [OF 2] 1(2) n by simp
    from IterateBody_advance [OF Suc.IH advanceD(1,2) [OF 2] this obj, of "Suc depth" "Suc depth"]
    obtain h' where h': "IterateBody M ?v obj ?h3 = Some h'" "advance M ?h3 h'" by blast
    have "advance M h h'" by (rule advance_trans [OF advance_trans [OF 1(1) 2] h'(2)])
    then show "\<exists>h'. VisitUnmarkedObject M (Suc n) depth obj h = Some h' \<and> advance M h h'"
      using h'(1) by (simp add: Let_def)
  qed
qed

lemma visit_total_mono: "visit_total M n visit \<Longrightarrow> m \<le> n \<Longrightarrow> visit_total M m visit"
  unfolding visit_total_def by (meson le_trans)

subsection \<open>The marking stack drains\<close>

lemma process_object_advance:
  assumes wf: "marking_wf M h" and c: "heap_closed M h" and k: "whites M h \<le> k"
    and ne: "\<not> is_empty h"
  shows "\<exists>h'. process_object M (MarkingVisitor M k) h = Some h' \<and> advance M h h' \<and>
           weight M h' < weight M h"
proof -
  obtain object rest where st: "marking_stack h = object # rest"
    using ne by (cases "marking_stack h") (simp_all add: is_empty_def)
  let ?h1 = "h\<lparr>marking_stack := rest\<rparr>"
  let ?map = "true_map h object"
  let ?h2 = "MarkObject M ?map ?h1"
  have e: "map_word ?h1 = map_word h" "slot ?h1 = slot h"
    "target_address ?h1 = target_address h" by simp_all
  note fr = colour_frame(1-3) [OF e]
  have on: "object \<in> set (marking_stack h)" using st by simp
  have "\<not> obj_IsOverflowed h object" by (rule marking_wfD(5) [OF wf on])
  then have map: "ToMap (ClearMark (map_word h object)) = ?map"
    using marking_wfD(1) [OF wf, of object]
    by (simp add: ToMap_ClearMark true_map_def obj_IsOverflowed_def)
  have obj: "object \<in> heap_objects M"
    by (rule heap_closedD(1) [OF c marking_wfD(4) [OF wf on]])
  have wf1: "marking_wf M ?h1" using wf st by (auto simp add: marking_wf_def fr)
  have c1: "heap_closed M ?h1" by (rule heap_closed_step [OF c]) (simp_all add: fr)
  have w1: "weight M ?h1 < weight M h" by (simp add: weight_def rank_eq [OF fr(1,2)] st)
  have m1: "obj_IsMarked ?h1 = obj_IsMarked h" by (simp add: fr)
  note 2 = MarkObject_advance [OF wf1 c1 heap_closedD(2) [OF c obj]]
  have "whites M ?h2 \<le> k" using advanceD(5) [OF 2] k by (simp add: whites_def)
  from IterateBody_advance [OF VisitUnmarkedObject_total advanceD(1,2) [OF 2] this obj, of 0 0]
  obtain h' where h': "IterateBody M (MarkingVisitor M k) object ?h2 = Some h'"
    "advance M ?h2 h'"
    by (auto simp add: MarkingVisitor_def)
  note a = advance_trans [OF 2 h'(2)]
  have "process_object M (MarkingVisitor M k) h = Some h'"
    using h'(1) st map by (simp add: process_object_def Let_def)
  moreover have "advance M h h'"
    using advanceD [OF a] w1 by (intro advanceI) (simp_all add: m1)
  moreover have "weight M h' < weight M h" using advanceD(4) [OF a] w1 by simp
  ultimately show ?thesis by blast
qed

lemma drain_marking_stack_advance:
  assumes "marking_wf M h" "heap_closed M h" "whites M h \<le> k" "weight M h \<le> n"
  shows "\<exists>h'. drain_marking_stack M (MarkingVisitor M k) n h = Some h' \<and> advance M h h'"
  using assms
proof (induction n arbitrary: h)
  case 0
  then have "is_empty h" by (simp add: weight_def is_empty_def)
  then show ?case using advance_refl [OF 0(1,2)] by simp
next
  case (Suc n)
  show ?case
  proof (cases "is_empty h")
    case True
    then show ?thesis using advance_refl [OF Suc.prems(1,2)] by simp
  next
    case False
    from process_object_advance [OF Suc.prems(1-3) False]
    obtain g where g: "process_object M (MarkingVisitor M k) h = Some g" "advance M h g"
      "weight M g < weight M h" by blast
    have "whites M g \<le> k" "weight M g \<le> n"
      using advanceD(5) [OF g(2)] g(3) Suc.prems(3,4) by simp_all
    from Suc.IH [OF advanceD(1,2) [OF g(2)] this]
    obtain h' where h': "drain_marking_stack M (MarkingVisitor M k) n g = Some h'"
      "advance M g h'" by blast
    show ?thesis using False g(1) h' advance_trans [OF g(2) h'(2)] by simp
  qed
qed


subsection \<open>A rescan takes work away\<close>

lemma rescan_step_closed:
  assumes st: "rescan_step h h'" and c: "heap_closed M h"
  shows "heap_closed M h'"
  by (rule heap_closed_step [OF c]) (simp_all add: rescan_stepD(1,2,4,5) [OF st])

lemma scan_loop_weight:
  assumes "marking_wf M h" "heap_closed M h"
  shows "weight M (scan_loop M objs h) + length (marking_stack (scan_loop M objs h)) \<le>
         weight M h + length (marking_stack h)"
  using assms
proof (induction objs arbitrary: h)
  case Nil
  show ?case by simp
next
  case (Cons obj objs)
  note mp = marking_wfD(1) [OF Cons.prems(1)]
  show ?case
  proof (cases "obj_IsOverflowed h obj")
    case False
    then show ?thesis
      using Cons.IH [OF Cons.prems] by (simp add: VisitOverflowedObject_skip)
  next
    case ov: True
    show ?thesis
    proof (cases "overflowed h")
      case True
      show ?thesis unfolding scan_loop_flagged [OF True] by simp
    next
      case flag: False
      show ?thesis
      proof (cases "is_full M h")
        case True
        have "weight M (h\<lparr>overflowed := True\<rparr>) = weight M h"
          by (rule weight_same) (simp_all add: rank_def)
        then show ?thesis
          by (simp add: VisitOverflowedObject_full [OF mp ov flag True] scan_loop_flagged)
      next
        case False
        let ?g = "(obj_ClearOverflow obj h)\<lparr>marking_stack := obj # marking_stack h\<rparr>"
        have v: "VisitOverflowedObject M obj h = (True, ?g)"
          by (rule VisitOverflowedObject_push [OF ov flag False])
        note st = VisitOverflowedObject_step(1) [OF Cons.prems(1) v]
        note ih = Cons.IH [OF rescan_step_wf [OF st Cons.prems(1)]
            rescan_step_closed [OF st Cons.prems(2)]]
        have obj: "obj \<in> heap_objects M"
          by (rule heap_closedD(1) [OF Cons.prems(2) marking_wfD(3) [OF Cons.prems(1) ov]])
        have r: "rank ?g a = rank h a" if "a \<noteq> obj" for a
          using that by (simp add: rank_def obj_ClearOverflow_words mp)
        have "rank h obj = 2" "rank ?g obj = 0"
          using ov marking_wfD(3) [OF Cons.prems(1) ov]
          by (simp_all add: rank_def obj_ClearOverflow_words mp)
        then have "weight M ?g + length (marking_stack ?g) = weight M h + length (marking_stack h)"
          using weight_step [OF obj r] by simp
        then show ?thesis using ih by (simp add: v)
      qed
    qed
  qed
qed

lemma refill_marking_stack_advance:
  assumes wf: "marking_wf M h" and c: "heap_closed M h"
  shows "marking_wf M (refill_marking_stack M h)"
    and "heap_closed M (refill_marking_stack M h)"
    and "whites M (refill_marking_stack M h) = whites M h"
    and "weight M (refill_marking_stack M h) + length (marking_stack (refill_marking_stack M h)) \<le>
         weight M h + length (marking_stack h)"
proof -
  note st = refill_marking_stack_step(1) [OF wf]
  show "marking_wf M (refill_marking_stack M h)" by (rule rescan_step_wf [OF st wf])
  show "heap_closed M (refill_marking_stack M h)" by (rule rescan_step_closed [OF st c])
  show "whites M (refill_marking_stack M h) = whites M h"
    by (simp add: whites_def rescan_stepD(1) [OF st])
  let ?h0 = "clear_overflowed h"
  have "rank ?h0 = rank h" by (rule rank_eq) (simp_all add: clear_overflowed_def)
  then have "weight M ?h0 = weight M h" "marking_stack ?h0 = marking_stack h"
    by (simp_all add: weight_def clear_overflowed_def)
  then show "weight M (refill_marking_stack M h) +
      length (marking_stack (refill_marking_stack M h)) \<le> weight M h + length (marking_stack h)"
    using scan_loop_weight [OF rescan_step_wf [OF clear_overflowed_step wf]
        rescan_step_closed [OF clear_overflowed_step c], of "objects_in_rescan_order M"]
    by (simp add: refill_marking_stack_scan)
qed

lemma ProcessMarkingStack_idle:
  "is_empty h \<Longrightarrow> \<not> overflowed h \<Longrightarrow> ProcessMarkingStack M v (Suc n) h = Some h"
  by (cases n) simp_all

lemma drain_marking_stack_empty:
  "drain_marking_stack M v n h = Some h' \<Longrightarrow> is_empty h'"
proof (induction n arbitrary: h)
  case 0
  then show ?case by (simp split: if_splits)
next
  case (Suc n)
  show ?case
  proof (cases "is_empty h")
    case True
    then show ?thesis using Suc.prems by simp
  next
    case False
    then obtain g where "process_object M v h = Some g" "drain_marking_stack M v n g = Some h'"
      using Suc.prems by (cases "process_object M v h") simp_all
    then show ?thesis using Suc.IH by blast
  qed
qed

lemma ProcessMarkingStack_returns:
  assumes "marking_wf M h" "heap_closed M h" "whites M h \<le> k"
    and d: "distinct (objects_in_rescan_order M)" and cap: "0 < stack_capacity M"
    and "weight M h + 2 \<le> n"
  shows "\<exists>h'. ProcessMarkingStack M (MarkingVisitor M k) n h = Some h' \<and> heap_closed M h'"
  using assms(1-3,6)
proof (induction n arbitrary: h)
  case 0
  then show ?case by simp
next
  case (Suc n)
  have "weight M h \<le> n" using Suc.prems(4) by simp
  from drain_marking_stack_advance [OF Suc.prems(1-3) this]
  obtain h1 where h1: "drain_marking_stack M (MarkingVisitor M k) n h = Some h1" "advance M h h1"
    by blast
  show ?case
  proof (cases "overflowed h1")
    case False
    then show ?thesis using h1(1) advanceD(2) [OF h1(2)] by simp
  next
    case True
    let ?h2 = "refill_marking_stack M h1"
    let ?os = "filter (obj_IsOverflowed h1) (objects_in_rescan_order M)"
    note wf1 = advanceD(1) [OF h1(2)]
    note r = refill_marking_stack_advance [OF advanceD(1,2) [OF h1(2)]]
    note s = refill_marking_stack_stack [OF wf1 d]
    have e1: "marking_stack h1 = []"
      using drain_marking_stack_empty [OF h1(1)] by (simp add: is_empty_def)
    then have room: "0 < room M h1" using cap by (simp add: room_def)
    have eq: "ProcessMarkingStack M (MarkingVisitor M k) (Suc n) h =
        ProcessMarkingStack M (MarkingVisitor M k) n ?h2"
      using h1(1) True by simp
    have k2: "whites M ?h2 \<le> k" using r(3) advanceD(5) [OF h1(2)] Suc.prems(3) by simp
    show ?thesis
    proof (cases "marking_stack ?h2 = []")
      case True
      then have "take (room M h1) ?os = []" using s(1) by simp
      then have "?os = []" using room by (cases ?os) simp_all
      then have "\<not> overflowed ?h2" using s(2) by simp
      moreover obtain n' where "n = Suc n'" using Suc.prems(4) by (cases n) simp_all
      ultimately show ?thesis
        unfolding eq using True r(2) ProcessMarkingStack_idle [of ?h2 M _ n']
        by (simp add: is_empty_def)
    next
      case False
      then have l: "Suc 0 \<le> length (marking_stack ?h2)"
        by (cases "marking_stack ?h2") simp_all
      have "weight M ?h2 + length (marking_stack ?h2) \<le> weight M h1"
        using r(4) by (simp add: e1)
      then have "weight M ?h2 + 2 \<le> n"
        using l advanceD(4) [OF h1(2)] Suc.prems(4) by linarith
      then show ?thesis unfolding eq by (rule Suc.IH [OF r(1,2) k2])
    qed
  qed
qed

lemma weight_bound: "weight M h \<le> 3 * length (objects_in_rescan_order M) + length (marking_stack h)"
proof -
  have "sum (rank h) (heap_objects M) \<le> sum (\<lambda>a. 3) (heap_objects M)"
    by (rule sum_mono) (simp add: rank_def)
  also have "\<dots> \<le> 3 * length (objects_in_rescan_order M)"
    using card_length [of "objects_in_rescan_order M"] by (simp add: heap_objects_def)
  finally show ?thesis by (simp add: weight_def)
qed

lemma whites_bound: "whites M h \<le> length (objects_in_rescan_order M)"
proof -
  have "whites M h \<le> card (heap_objects M)"
    unfolding whites_def by (rule card_mono) auto
  then show ?thesis
    using card_length [of "objects_in_rescan_order M"] by (simp add: heap_objects_def)
qed

subsection \<open>What can be reached from a marked object\<close>

lemma children_marked_refers:
  assumes "children_marked M h a" "refers M h a b"
  shows "obj_IsMarked h b"
proof -
  have m: "obj_IsMarked h (true_map h a)"
    and items: "\<And>i. i \<in> set (body M a) \<Longrightarrow> item_ok M i h"
    using assms(1) by (simp_all add: children_marked_def)
  from assms(2) consider (map) "b = true_map h a"
    | (slot) i p where "i \<in> set (body M a)" "p \<in> item_slots i" "slot h p = HeapObject b"
    | (target) i r where "i \<in> set (body M a)" "r \<in> item_targets i"
        "\<not> FLAG_cleanup_ics_at_gc M" "b = code_of M h r"
    unfolding refers_def by blast
  then show ?thesis
  proof cases
    case map
    then show ?thesis using m by simp
  next
    case slot
    then have "slot_ok h p" using items unfolding item_ok_def by blast
    then show ?thesis using slot(3) by (simp add: slot_ok_def)
  next
    case target
    then have "target_ok M h r" using items unfolding item_ok_def by blast
    then show ?thesis using target by (simp add: target_ok_def)
  qed
qed

lemma reaches_marked:
  assumes black: "\<And>a. obj_IsMarked h a \<Longrightarrow> a \<in> X \<or> children_marked M h a"
    and r: "reaches M X h a b" and a: "obj_IsMarked h a"
  shows "obj_IsMarked h b"
  using r [unfolded reaches_def] a
proof (induction rule: rtranclp_induct)
  case base
  then show ?case .
next
  case (step y z)
  then have "children_marked M h y" using black [of y] by blast
  then show ?case using step.hyps(2) children_marked_refers by blast
qed

subsection \<open>The overflow of the marking stack\<close>

lemmas marking_eval = ProcessMarkingStack.simps drain_marking_stack.simps process_object_def
  refill_marking_stack_def ScanOverflowedObjects_def VisitOverflowedObject_def
  MarkingVisitor_def marking_visitor_def IterateBody_def marking_VisitPointers_def
  VisitUnmarkedObjects_def MarkObjectByPointer_def MarkObject_def MarkUnmarkedObject_def
  Push_def is_full_def is_empty_def clear_overflowed_def is_flat_cons_string_def
  obj_IsMarked_def obj_IsOverflowed_def obj_SetMark_def obj_SetOverflow_def
  obj_ClearOverflow_def obj_ClearMark_def obj_map_def set_map_word_def IsMap_def
  IsJSGlobalObject_def ClearCodeCache_def increment_marked_count_def
  kMinRangeForMarkingRecursion_def ToMap_def kMarkingMask_def kOverflowMask_def Let_def

lemmas overflow_sample = overflow_model_def gray_root_heap_def overflowed_heap_def

lemma overflow_sample_run:
  "\<exists>h'. ProcessMarkingStack overflow_model (MarkingVisitor overflow_model 7) 24 gray_root_heap =
         Some h' \<and>
       list_all (obj_IsMarked h') [1000, 1100, 1200, 1300, 1400, 108, 112] \<and>
       marked_count (gc_tracer h') = 7"
  by (simp add: marking_eval overflow_sample eval_nat_numeral upto.simps)

lemma overflow_sample_wf:
  "marking_wf overflow_model gray_root_heap" "marking_wf overflow_model overflowed_heap"
  "tricolour overflow_model {} gray_root_heap" "no_hidden_gray overflow_model gray_root_heap"
  "overflowed overflowed_heap" "\<not> obj_IsMarked overflowed_heap 1400"
  by (simp_all add: marking_wf_def tricolour_def no_hidden_gray_def is_gray_def
      obj_IsMarked_def obj_IsOverflowed_def overflow_sample)

lemma overflow_sample_order:
  "objects_in_rescan_order overflow_model = [1000, 1100, 1200, 1300, 1400, 108, 112]"
  by (simp add: objects_in_rescan_order_def rescan_order_def overflow_model_def)

lemma overflow_sample_closed: "heap_closed overflow_model gray_root_heap"
  by (simp add: heap_closed_def heap_objects_def overflow_sample_order reads_as_cons_string_def
      true_map_def obj_IsMarked_def)
     (simp add: overflow_sample)


lemma overflow_sample_bits:
  "obj_IsOverflowed overflowed_heap a = (a = 1100 \<or> a = 1200 \<or> a = 1300)"
  by (simp add: obj_IsOverflowed_def overflow_sample)

lemma overflow_sample_refill:
  "room overflow_model overflowed_heap = 1"
  "filter (obj_IsOverflowed overflowed_heap) [1000, 1100, 1200, 1300, 1400, 108, 112] =
     [1100, 1200, 1300]"
  "marking_stack overflowed_heap = []"
  "marking_stack gray_root_heap = [1000]" "stack_capacity overflow_model = 1"
  "obj_IsMarked gray_root_heap 1000"
  by (simp_all add: room_def overflow_sample_bits)
     (simp_all add: obj_IsMarked_def overflow_sample)



end
